theory Spec2Isabelle
  imports Main "HOL-Library.Word"
begin

unbundle bit_operations_syntax

section \<open>The bounded MPMC queue of \<^verbatim>\<open>mpmc_queue.cpp\<close>, executed sequentially\<close>

text \<open>
  The class \<^verbatim>\<open>MPMCQueue<T>\<close> is a ring of cells, each with a sequence number and a
  payload, and two position counters. \<^verbatim>\<open>size_t\<close> is taken to be 64 bits wide, so every
  counter and sequence number is a \<open>64 word\<close> and \<open>+\<close>, \<open>-\<close> wrap around as the unsigned
  C++ arithmetic does. The difference \<^verbatim>\<open>(intptr_t)seq - (intptr_t)pos\<close> is read in two's
  complement: it is \<open>sint (seq - pos)\<close>.

  The model is the single-threaded execution of the member functions: an atomic load
  reads the field, an atomic store writes it, and memory orders play no role.
\<close>

type_synonym size_t = "64 word"

record 'a Cell =
  sequence :: size_t
  data :: 'a

record 'a MPMCQueue =
  buffer :: "'a Cell list"
  buffer_mask :: size_t
  enqueue_pos :: size_t
  dequeue_pos :: size_t

datatype error = LengthError | AssertionFailed

subsection \<open>Constructor\<close>

text \<open>
  The member initialisers run first. \<^verbatim>\<open>buffer_(buffer_size)\<close> builds \<^verbatim>\<open>buffer_size\<close>
  value-initialised cells (the payload of such a cell is the parameter \<open>dflt\<close>);
  \<^verbatim>\<open>std::vector\<close> throws \<^verbatim>\<open>std::length_error\<close> where the size asked for is above its
  \<^verbatim>\<open>max_size()\<close>, and the constructor then ends with \<open>LengthError\<close> before the body is
  entered. That bound belongs to the library and to the size of a cell, not to this
  source: it is the parameter \<open>max_size\<close> (with 64-bit pointers and cells of 16 bytes
  it is \<open>2 ^ 59 - 1\<close>). \<^verbatim>\<open>buffer_mask_(buffer_size - 1)\<close> sets the mask. In the body the
  \<^verbatim>\<open>assert\<close> is modelled as active: where its condition is false the constructor ends
  with \<open>AssertionFailed\<close>. The \<^verbatim>\<open>for\<close> loop then stores \<open>i\<close> into the sequence number of
  cell \<open>i\<close>. Below \<open>max_size\<close> the memory for the vector is taken to be available.
\<close>

definition store_sequence :: "'a Cell list \<Rightarrow> nat \<Rightarrow> size_t \<Rightarrow> 'a Cell list" where
  "store_sequence b i s = b[i := (b ! i)\<lparr>sequence := s\<rparr>]"

definition init_sequences :: "nat \<Rightarrow> 'a Cell list \<Rightarrow> 'a Cell list" where
  "init_sequences n b = fold (\<lambda>i b'. store_sequence b' i (of_nat i)) [0..<n] b"

definition assert_cond :: "size_t \<Rightarrow> bool" where
  "assert_cond buffer_size \<longleftrightarrow> buffer_size \<ge> 2 \<and> buffer_size AND (buffer_size - 1) = 0"

definition new_MPMCQueue :: "nat \<Rightarrow> size_t \<Rightarrow> 'a \<Rightarrow> error + 'a MPMCQueue" where
  "new_MPMCQueue max_size buffer_size dflt =
     (if max_size < unat buffer_size then Inl LengthError
      else
        let b = replicate (unat buffer_size) \<lparr>sequence = 0, data = dflt\<rparr>;
            m = buffer_size - 1
        in if assert_cond buffer_size
           then Inr \<lparr>buffer = init_sequences (unat buffer_size) b, buffer_mask = m,
                     enqueue_pos = 0, dequeue_pos = 0\<rparr>
           else Inl AssertionFailed)"

subsection \<open>Compare-and-swap\<close>

text \<open>
  \<^verbatim>\<open>obj.compare_exchange_weak(expected, desired)\<close> on one thread: where the atomic
  holds \<open>expected\<close> it becomes \<open>desired\<close> and the call returns true; otherwise
  \<open>expected\<close> is overwritten with the value held and the call returns false. The result
  is (flag, new value of the atomic, new value of \<open>expected\<close>). Spurious failure of
  the weak form is not modelled.
\<close>

definition compare_exchange_weak :: "size_t \<Rightarrow> size_t \<Rightarrow> size_t \<Rightarrow> bool \<times> size_t \<times> size_t" where
  "compare_exchange_weak obj expected desired =
     (if obj = expected then (True, desired, expected) else (False, obj, obj))"

subsection \<open>enqueue and dequeue\<close>

text \<open>
  The \<^verbatim>\<open>while (true)\<close> loops are partial functions into \<open>option\<close>: a loop that never
  returns has the value \<open>None\<close>. The loop state is the local variable \<open>pos\<close>; the cell is
  \<open>buffer ! unat (pos AND buffer_mask)\<close>. \<^verbatim>\<open>buffer_[i]\<close> does not check its index, and
  an index outside the vector is undefined behaviour: the model has no result there
  either.
\<close>

partial_function (option) enqueue_loop ::
    "'a MPMCQueue \<Rightarrow> 'a \<Rightarrow> size_t \<Rightarrow> (bool \<times> 'a MPMCQueue) option" where
  "enqueue_loop q d pos =
     (let i = unat (pos AND buffer_mask q);
          seq = sequence (buffer q ! i);
          dif = sint (seq - pos)
      in if length (buffer q) \<le> i then None
         else if dif = 0 then
           (let r = compare_exchange_weak (enqueue_pos q) pos (pos + 1)
            in if fst r
               then Some (True,
                      q\<lparr>enqueue_pos := fst (snd r),
                        buffer := (buffer q)[i := \<lparr>sequence = pos + 1, data = d\<rparr>]\<rparr>)
               else enqueue_loop (q\<lparr>enqueue_pos := fst (snd r)\<rparr>) d (snd (snd r)))
         else if dif < 0 then Some (False, q)
         else enqueue_loop q d (enqueue_pos q))"

definition enqueue :: "'a MPMCQueue \<Rightarrow> 'a \<Rightarrow> (bool \<times> 'a MPMCQueue) option" where
  "enqueue q d = enqueue_loop q d (enqueue_pos q)"

text \<open>
  \<^verbatim>\<open>dequeue(T& data)\<close> takes the content \<open>d\<close> of the caller's variable and returns the
  flag, the content of that variable after the call, and the queue.
\<close>

partial_function (option) dequeue_loop ::
    "'a MPMCQueue \<Rightarrow> 'a \<Rightarrow> size_t \<Rightarrow> (bool \<times> 'a \<times> 'a MPMCQueue) option" where
  "dequeue_loop q d pos =
     (let i = unat (pos AND buffer_mask q);
          seq = sequence (buffer q ! i);
          dif = sint (seq - (pos + 1))
      in if length (buffer q) \<le> i then None
         else if dif = 0 then
           (let r = compare_exchange_weak (dequeue_pos q) pos (pos + 1)
            in if fst r
               then Some (True, data (buffer q ! i),
                      q\<lparr>dequeue_pos := fst (snd r),
                        buffer := store_sequence (buffer q) i (pos + buffer_mask q + 1)\<rparr>)
               else dequeue_loop (q\<lparr>dequeue_pos := fst (snd r)\<rparr>) d (snd (snd r)))
         else if dif < 0 then Some (False, d, q)
         else dequeue_loop q d (dequeue_pos q))"

definition dequeue :: "'a MPMCQueue \<Rightarrow> 'a \<Rightarrow> (bool \<times> 'a \<times> 'a MPMCQueue) option" where
  "dequeue q d = dequeue_loop q d (dequeue_pos q)"

subsection \<open>Sequences of calls\<close>

text \<open>
  A caller's call is \<open>Enqueue v\<close> or \<open>Dequeue d\<close>, where \<open>d\<close> is what the variable
  passed by reference holds before the call. What the caller sees afterwards is the flag
  and, for a dequeue, what that variable holds then.
\<close>

datatype 'a call = Enqueue 'a | Dequeue 'a

datatype 'a ret = EnqueueRet bool | DequeueRet bool 'a

fun call_step :: "'a MPMCQueue \<Rightarrow> 'a call \<Rightarrow> ('a ret \<times> 'a MPMCQueue) option" where
  "call_step q (Enqueue v) =
     (case enqueue q v of None \<Rightarrow> None | Some r \<Rightarrow> Some (EnqueueRet (fst r), snd r))"
| "call_step q (Dequeue d) =
     (case dequeue q d of None \<Rightarrow> None
      | Some r \<Rightarrow> Some (DequeueRet (fst r) (fst (snd r)), snd (snd r)))"

fun run :: "'a MPMCQueue \<Rightarrow> 'a call list \<Rightarrow> ('a ret list \<times> 'a MPMCQueue) option" where
  "run q [] = Some ([], q)"
| "run q (c # cs) =
     (case call_step q c of None \<Rightarrow> None
      | Some r \<Rightarrow> (case run (snd r) cs of None \<Rightarrow> None
                   | Some rs \<Rightarrow> Some (fst r # fst rs, snd rs)))"

subsection \<open>The abstract bounded FIFO queue\<close>

text \<open>
  The reference object of the specification: a list of at most \<open>cap\<close> values, oldest
  first. An enqueue appends its value as the newest unless the list already holds
  \<open>cap\<close> values; a dequeue removes and returns the oldest value unless the list is empty,
  and then leaves the caller's variable as it was.
\<close>

fun fifo_step :: "nat \<Rightarrow> 'a list \<Rightarrow> 'a call \<Rightarrow> 'a ret \<times> 'a list" where
  "fifo_step cap xs (Enqueue v) =
     (if length xs < cap then (EnqueueRet True, xs @ [v]) else (EnqueueRet False, xs))"
| "fifo_step cap xs (Dequeue d) =
     (case xs of [] \<Rightarrow> (DequeueRet False d, []) | x # xs' \<Rightarrow> (DequeueRet True x, xs'))"

fun fifo_run :: "nat \<Rightarrow> 'a list \<Rightarrow> 'a call list \<Rightarrow> 'a ret list \<times> 'a list" where
  "fifo_run cap xs [] = ([], xs)"
| "fifo_run cap xs (c # cs) =
     (let r = fifo_step cap xs c; rs = fifo_run cap (snd r) cs
      in (fst r # fst rs, snd rs))"

subsection \<open>Positions, slots and the ring invariant\<close>

text \<open>
  \<open>slot q pos\<close> is the ring index \<^verbatim>\<open>pos & buffer_mask_\<close> of a position, \<open>count q\<close> the
  distance between the two counters, taken modulo \<open>2 ^ 64\<close>.
\<close>

definition slot :: "'a MPMCQueue \<Rightarrow> size_t \<Rightarrow> nat" where
  "slot q pos = unat (pos AND buffer_mask q)"

definition count :: "'a MPMCQueue \<Rightarrow> nat" where
  "count q = unat (enqueue_pos q - dequeue_pos q)"

definition write_ready :: "'a MPMCQueue \<Rightarrow> size_t \<Rightarrow> bool" where
  "write_ready q pos \<longleftrightarrow> sequence (buffer q ! slot q pos) = pos"

definition read_ready :: "'a MPMCQueue \<Rightarrow> size_t \<Rightarrow> bool" where
  "read_ready q pos \<longleftrightarrow> sequence (buffer q ! slot q pos) = pos + 1"

definition ring_shape :: "'a MPMCQueue \<Rightarrow> nat \<Rightarrow> bool" where
  "ring_shape q k \<longleftrightarrow>
     1 \<le> k \<and> k < 64 \<and> length (buffer q) = 2 ^ k \<and> buffer_mask q = 2 ^ k - 1"

text \<open>
  The positions \<open>dequeue_pos + j\<close> for \<open>j < count\<close> hold a value and wait for a consumer;
  the following ones, up to one lap after \<open>dequeue_pos\<close>, wait for a producer.
\<close>

definition slots_ok :: "'a MPMCQueue \<Rightarrow> bool" where
  "slots_ok q \<longleftrightarrow>
     (\<forall>j < length (buffer q).
        if j < count q then read_ready q (dequeue_pos q + of_nat j)
        else write_ready q (dequeue_pos q + of_nat j))"

definition queue_inv :: "'a MPMCQueue \<Rightarrow> bool" where
  "queue_inv q \<longleftrightarrow> (\<exists>k. ring_shape q k) \<and> count q \<le> length (buffer q) \<and> slots_ok q"

text \<open>The values held, oldest first: the payloads at \<open>dequeue_pos\<close>, \<open>dequeue_pos + 1\<close>, ...\<close>

definition contents :: "'a MPMCQueue \<Rightarrow> 'a list" where
  "contents q =
     map (\<lambda>j. data (buffer q ! slot q (dequeue_pos q + of_nat j))) [0..<count q]"

text \<open>The states after a successful enqueue and after a successful dequeue.\<close>

definition enqueued :: "'a MPMCQueue \<Rightarrow> 'a \<Rightarrow> 'a MPMCQueue" where
  "enqueued q v =
     q\<lparr>enqueue_pos := enqueue_pos q + 1,
       buffer := (buffer q)[slot q (enqueue_pos q) :=
                   \<lparr>sequence = enqueue_pos q + 1, data = v\<rparr>]\<rparr>"

definition dequeued :: "'a MPMCQueue \<Rightarrow> 'a MPMCQueue" where
  "dequeued q =
     q\<lparr>dequeue_pos := dequeue_pos q + 1,
       buffer := store_sequence (buffer q) (slot q (dequeue_pos q))
                   (dequeue_pos q + buffer_mask q + 1)\<rparr>"

text \<open>How many enqueues and how many dequeues of a run succeeded.\<close>

fun succ_enq :: "'a ret list \<Rightarrow> nat" where
  "succ_enq [] = 0"
| "succ_enq (EnqueueRet ok # rs) = (if ok then Suc (succ_enq rs) else succ_enq rs)"
| "succ_enq (DequeueRet ok x # rs) = succ_enq rs"

fun succ_deq :: "'a ret list \<Rightarrow> nat" where
  "succ_deq [] = 0"
| "succ_deq (EnqueueRet ok # rs) = succ_deq rs"
| "succ_deq (DequeueRet ok x # rs) = (if ok then Suc (succ_deq rs) else succ_deq rs)"

section \<open>Arithmetic of positions\<close>

lemma mask_index: "unat (p AND (2 ^ k - 1 :: 64 word)) = unat p mod 2 ^ k"
proof -
  have "p AND (2 ^ k - 1) = take_bit k p"
    by (simp only: take_bit_eq_mask mask_eq_decr_exp)
  moreover have "unat (take_bit k p) = take_bit k (unat p)"
    by (rule unsigned_take_bit_eq)
  ultimately show ?thesis
    by (simp only: take_bit_eq_mod)
qed

lemma index_offset:
  assumes "k \<le> 64"
  shows "unat (p + of_nat j :: 64 word) mod 2 ^ k = (unat p + j) mod 2 ^ k"
proof -
  have d: "(2::nat) ^ k dvd 2 ^ 64" using assms by (rule le_imp_power_dvd)
  have "unat (p + of_nat j :: 64 word) = (unat p + j mod 2 ^ 64) mod 2 ^ 64"
    by (simp add: unat_word_ariths unat_of_nat)
  also have "\<dots> = (unat p + j) mod 2 ^ 64" by (simp only: mod_add_right_eq)
  finally show ?thesis using d by (simp only: mod_mod_cancel)
qed

lemma offset_mod_inj:
  assumes "i < N" "j < N" "(a + i) mod N = (a + j) mod (N::nat)"
  shows "i = j"
proof -
  have aux: "x = y" if "x \<le> y" "y < N" "(a + x) mod N = (a + y) mod N" for x y
  proof -
    have "N dvd (a + y) - (a + x)"
      using that by (subst mod_eq_dvd_iff_nat [symmetric]) simp_all
    then have "N dvd y - x" by simp
    moreover have "y - x < N" using that by simp
    ultimately have "y - x = 0" by (meson dvd_imp_le not_less zero_less_iff_neq_zero)
    then show ?thesis using that by simp
  qed
  show ?thesis
  proof (cases "i \<le> j")
    case True then show ?thesis using aux assms by blast
  next
    case False then show ?thesis using aux [of j i] assms by simp
  qed
qed

lemma unat_exp:
  assumes "k < 64" shows "unat (2 ^ k :: 64 word) = 2 ^ k"
proof -
  have "(2::nat) ^ k < 2 ^ LENGTH(64)" using assms by (intro power_strict_increasing) simp_all
  then have "unat (of_nat (2 ^ k) :: 64 word) = 2 ^ k"
    by (simp only: unat_of_nat mod_less)
  then show ?thesis by (simp only: of_nat_power of_nat_numeral)
qed

lemma sint_neg:
  assumes "2 ^ 63 \<le> unat (w :: 64 word)" shows "sint w < 0"
proof -
  have "int (2 ^ 63) \<le> int (unat w)" using assms by (simp only: of_nat_le_iff)
  then have "(2::int) ^ 63 \<le> uint w" by (simp only: of_nat_power of_nat_numeral of_nat_unat)
  then have "signed_take_bit 63 (uint w) \<le> uint w - 2 ^ Suc 63"
    by (rule signed_take_bit_int_less_eq)
  moreover have "uint w < 2 ^ Suc 63" using uint_lt2p [of w] by simp
  moreover have "sint w = signed_take_bit 63 (uint w)" by (simp add: sint_uint)
  ultimately show ?thesis by linarith
qed

lemma sint_full:
  assumes "1 \<le> k" "k < 64" shows "sint (1 - 2 ^ k :: 64 word) < 0"
proof -
  have e: "unat (2 ^ k :: 64 word) = 2 ^ k" using assms by (simp add: unat_exp)
  have a: "(2::nat) ^ 1 \<le> 2 ^ k" using assms by (intro power_increasing) simp_all
  have b: "(2::nat) ^ k \<le> 2 ^ 63" using assms by (intro power_increasing) simp_all
  have "unat (1 - 2 ^ k :: 64 word) = 1 + 2 ^ 64 - 2 ^ k"
    using a by (simp add: unat_sub_if' e)
  also have "(1::nat) + 2 ^ 64 - 2 ^ k \<ge> 1 + 2 ^ 64 - 2 ^ 63" using b by (rule diff_le_mono2)
  finally have "2 ^ 63 \<le> unat (1 - 2 ^ k :: 64 word)" by simp
  then show ?thesis by (rule sint_neg)
qed

lemma nat_and_pred_pow2:
  fixes m :: nat
  shows "0 < m \<Longrightarrow> m AND (m - 1) = 0 \<Longrightarrow> \<exists>k. m = 2 ^ k"
proof (induction m rule: less_induct)
  case (less m)
  show ?case
  proof (cases "even m")
    case True
    then obtain j where j: "m = 2 * j" by (elim evenE)
    with less.prems have jpos: "0 < j" by simp
    have "(m - 1) div 2 = j - 1" using j jpos by simp
    then have "m AND (m - 1) = 2 * (j AND (j - 1))"
      using True j by (subst and_nat_rec) simp
    with less.prems have "j AND (j - 1) = 0" by simp
    moreover have "j < m" using j jpos by simp
    ultimately obtain k where "j = 2 ^ k" using less.IH jpos by blast
    then have "m = 2 ^ Suc k" using j by simp
    then show ?thesis by blast
  next
    case False
    then obtain j where j: "m = 2 * j + 1" by (elim oddE)
    have "m AND (m - 1) = 2 * j"
      using j by (subst and_nat_rec) simp
    with less.prems have "j = 0" by simp
    then have "m = 2 ^ 0" using j by simp
    then show ?thesis by blast
  qed
qed



lemma assert_cond_imp_pow2:
  assumes "assert_cond n" shows "\<exists>k. 1 \<le> k \<and> k < 64 \<and> n = 2 ^ k"
proof -
  from assms have ge: "2 \<le> n" and z: "n AND (n - 1) = 0"
    by (simp_all add: assert_cond_def)
  from ge have ge': "2 \<le> unat n" by (simp add: word_le_nat_alt)
  then have nz: "n \<noteq> 0" by auto
  have "unat (n AND (n - 1)) = unat n AND unat (n - 1)" by (rule unsigned_and_eq)
  with z nz have "unat n AND (unat n - 1) = 0" by (simp add: unat_minus_one)
  with ge' obtain k where k: "unat n = 2 ^ k" using nat_and_pred_pow2 [of "unat n"] by auto
  have "unat n < 2 ^ 64" using unsigned_less [of n] by simp
  with k have "(2::nat) ^ k < 2 ^ 64" by simp
  then have k64: "k < 64" by (simp only: power_strict_increasing_iff)
  have "1 \<le> k" using ge' k by (cases k) auto
  moreover have "n = 2 ^ k"
  proof -
    have "n = of_nat (unat n)" by simp
    also have "\<dots> = 2 ^ k" by (simp only: k of_nat_power of_nat_numeral)
    finally show ?thesis .
  qed
  ultimately show ?thesis using k64 by blast
qed

lemma slot_mod: "ring_shape q k \<Longrightarrow> slot q p = unat p mod 2 ^ k"
  by (simp add: ring_shape_def slot_def mask_index)

lemma slot_less: "ring_shape q k \<Longrightarrow> slot q p < length (buffer q)"
  by (simp add: slot_mod) (simp add: ring_shape_def)

lemma queue_inv_slot_less: "queue_inv q \<Longrightarrow> slot q p < length (buffer q)"
  by (auto simp: queue_inv_def slot_less)

lemma slot_offset: "ring_shape q k \<Longrightarrow> slot q (p + of_nat j) = (unat p + j) mod 2 ^ k"
  by (simp add: slot_mod) (simp add: ring_shape_def index_offset)

lemma slot_offset_inj:
  "ring_shape q k \<Longrightarrow> i < 2 ^ k \<Longrightarrow> j < 2 ^ k \<Longrightarrow>
   slot q (p + of_nat i) = slot q (p + of_nat j) \<Longrightarrow> i = j"
  by (simp add: slot_offset) (erule (2) offset_mod_inj)

lemma slot_lap: "ring_shape q k \<Longrightarrow> slot q (p + 2 ^ k) = slot q p"
proof -
  assume r: "ring_shape q k"
  have "slot q (p + of_nat (2 ^ k)) = (unat p + 2 ^ k) mod 2 ^ k" using r by (rule slot_offset)
  then show ?thesis using r by (simp add: slot_mod)
qed

lemma enqueue_pos_offset: "enqueue_pos q = dequeue_pos q + of_nat (count q)"
  by (simp add: count_def)

lemma unat_of_nat_small:
  assumes "k < 64" "n \<le> 2 ^ k" shows "unat (of_nat n :: 64 word) = n"
proof -
  have "(2::nat) ^ k < 2 ^ LENGTH(64)" using assms by (intro power_strict_increasing) simp_all
  with assms have "n < 2 ^ LENGTH(64)" by simp
  then show ?thesis by (simp only: unat_of_nat mod_less)
qed

section \<open>One pass through each loop\<close>

lemma enqueue_loop_ready:
  "slot q pos < length (buffer q) \<Longrightarrow> write_ready q pos \<Longrightarrow> enqueue_pos q = pos \<Longrightarrow>
   enqueue_loop q d pos = Some (True, enqueued q d)"
  by (subst enqueue_loop.simps)
    (simp add: compare_exchange_weak_def slot_def Let_def write_ready_def enqueued_def)

lemma enqueue_loop_behind:
  "slot q pos < length (buffer q) \<Longrightarrow> sint (sequence (buffer q ! slot q pos) - pos) < 0 \<Longrightarrow>
   enqueue_loop q d pos = Some (False, q)"
  by (subst enqueue_loop.simps) (simp add: slot_def Let_def)

lemma dequeue_loop_ready:
  "slot q pos < length (buffer q) \<Longrightarrow> read_ready q pos \<Longrightarrow> dequeue_pos q = pos \<Longrightarrow>
   dequeue_loop q d pos = Some (True, data (buffer q ! slot q pos), dequeued q)"
  by (subst dequeue_loop.simps)
    (simp add: compare_exchange_weak_def slot_def Let_def read_ready_def dequeued_def)

lemma dequeue_loop_behind:
  "slot q pos < length (buffer q) \<Longrightarrow>
   sint (sequence (buffer q ! slot q pos) - (pos + 1)) < 0 \<Longrightarrow>
   dequeue_loop q d pos = Some (False, d, q)"
  by (subst dequeue_loop.simps) (simp add: slot_def Let_def)

text \<open>
  Whatever the state, a loop that returns has either changed nothing or claimed the
  position held by the counter.
\<close>

lemma enqueue_loop_result:
  assumes "enqueue_loop q d pos = Some r"
  shows "r = (False, q) \<or> r = (True, enqueued q d)"
  using assms
proof (induction rule: enqueue_loop.raw_induct [rotated 1, consumes 1])
  case (1 loop q d pos r)
  note IH = "1"(1) and body = "1"(2)
  let ?dif = "sint (sequence (buffer q ! unat (pos AND buffer_mask q)) - pos)"
  have inb: "\<not> length (buffer q) \<le> unat (pos AND buffer_mask q)"
    using body by (auto simp: Let_def split: if_splits)
  consider (claim) "?dif = 0" "enqueue_pos q = pos" | (lost) "?dif = 0" "enqueue_pos q \<noteq> pos"
    | (full) "?dif < 0" | (stale) "0 < ?dif"
    by fastforce
  then show ?case
  proof cases
    case claim
    with body inb show ?thesis
      by (auto simp: Let_def compare_exchange_weak_def enqueued_def slot_def)
  next
    case lost
    with body inb have "loop q d (enqueue_pos q) = Some r"
      by (simp add: Let_def compare_exchange_weak_def)
    then show ?thesis by (rule IH)
  next
    case full
    with body inb show ?thesis by (auto simp: Let_def)
  next
    case stale
    with body inb have "loop q d (enqueue_pos q) = Some r"
      by (simp add: Let_def)
    then show ?thesis by (rule IH)
  qed
qed

lemma dequeue_loop_result:
  assumes "dequeue_loop q d pos = Some r"
  shows "r = (False, d, q)
       \<or> r = (True, data (buffer q ! slot q (dequeue_pos q)), dequeued q)"
  using assms
proof (induction rule: dequeue_loop.raw_induct [rotated 1, consumes 1])
  case (1 loop q d pos r)
  note IH = "1"(1) and body = "1"(2)
  let ?dif = "sint (sequence (buffer q ! unat (pos AND buffer_mask q)) - (pos + 1))"
  have inb: "\<not> length (buffer q) \<le> unat (pos AND buffer_mask q)"
    using body by (auto simp: Let_def split: if_splits)
  consider (claim) "?dif = 0" "dequeue_pos q = pos" | (lost) "?dif = 0" "dequeue_pos q \<noteq> pos"
    | (empty) "?dif < 0" | (stale) "0 < ?dif"
    by fastforce
  then show ?case
  proof cases
    case claim
    with body inb show ?thesis
      by (auto simp: Let_def compare_exchange_weak_def dequeued_def slot_def)
  next
    case lost
    with body inb have "loop q d (dequeue_pos q) = Some r"
      by (simp add: Let_def compare_exchange_weak_def)
    then show ?thesis by (rule IH)
  next
    case empty
    with body inb show ?thesis by (auto simp: Let_def)
  next
    case stale
    with body inb have "loop q d (dequeue_pos q) = Some r"
      by (simp add: Let_def)
    then show ?thesis by (rule IH)
  qed
qed

text \<open>
  Outside the ring invariant a loop need not return: with the sequence number of the
  cell ahead of the counter, and no other thread to move the counter, the loop reloads
  the same position for ever.
\<close>

lemma enqueue_loop_ahead:
  assumes "enqueue_loop q d pos = Some r"
  shows "\<not> (pos = enqueue_pos q
            \<and> 0 < sint (sequence (buffer q ! slot q (enqueue_pos q)) - enqueue_pos q))"
  using assms
proof (induction rule: enqueue_loop.raw_induct [rotated 1, consumes 1])
  case (1 loop q d pos r)
  note IH = "1"(1) and body = "1"(2)
  show ?case
  proof
    assume a: "pos = enqueue_pos q
            \<and> 0 < sint (sequence (buffer q ! slot q (enqueue_pos q)) - enqueue_pos q)"
    with body have "loop q d (enqueue_pos q) = Some r"
      by (auto simp: Let_def slot_def split: if_splits)
    from IH [OF this] a show False by simp
  qed
qed

lemma enqueue_spins:
  "0 < sint (sequence (buffer q ! slot q (enqueue_pos q)) - enqueue_pos q) \<Longrightarrow>
   enqueue q d = None"
  using enqueue_loop_ahead [of q d "enqueue_pos q"] by (cases "enqueue q d") (auto simp: enqueue_def)

lemma dequeue_loop_ahead:
  assumes "dequeue_loop q d pos = Some r"
  shows "\<not> (pos = dequeue_pos q
            \<and> 0 < sint (sequence (buffer q ! slot q (dequeue_pos q)) - (dequeue_pos q + 1)))"
  using assms
proof (induction rule: dequeue_loop.raw_induct [rotated 1, consumes 1])
  case (1 loop q d pos r)
  note IH = "1"(1) and body = "1"(2)
  show ?case
  proof
    assume a: "pos = dequeue_pos q
            \<and> 0 < sint (sequence (buffer q ! slot q (dequeue_pos q)) - (dequeue_pos q + 1))"
    with body have "loop q d (dequeue_pos q) = Some r"
      by (auto simp: Let_def slot_def split: if_splits)
    from IH [OF this] a show False by simp
  qed
qed

lemma dequeue_spins:
  "0 < sint (sequence (buffer q ! slot q (dequeue_pos q)) - (dequeue_pos q + 1)) \<Longrightarrow>
   dequeue q d = None"
  using dequeue_loop_ahead [of q d "dequeue_pos q"] by (cases "dequeue q d") (auto simp: dequeue_def)

lemma enqueue_spins_example:
  "enqueue \<lparr>buffer = [\<lparr>sequence = 4, data = 0::nat\<rparr>, \<lparr>sequence = 1, data = 0\<rparr>],
            buffer_mask = 1, enqueue_pos = 0, dequeue_pos = 0\<rparr> 5 = None"
  by (rule enqueue_spins) (simp add: slot_def)

section \<open>The ring invariant\<close>

lemma ring_shape_enqueued [simp]: "ring_shape (enqueued q v) k = ring_shape q k"
  by (simp add: ring_shape_def enqueued_def)

lemma ring_shape_dequeued [simp]: "ring_shape (dequeued q) k = ring_shape q k"
  by (simp add: ring_shape_def dequeued_def store_sequence_def)

lemma slot_enqueued [simp]: "slot (enqueued q v) p = slot q p"
  by (simp add: slot_def enqueued_def)

lemma slot_dequeued [simp]: "slot (dequeued q) p = slot q p"
  by (simp add: slot_def dequeued_def)

lemma count_enqueued:
  assumes "ring_shape q k" "count q < 2 ^ k"
  shows "count (enqueued q v) = Suc (count q)"
proof -
  have "count (enqueued q v) = unat (enqueue_pos q + 1 - dequeue_pos q)"
    by (simp add: count_def enqueued_def)
  also have "enqueue_pos q + 1 - dequeue_pos q = of_nat (Suc (count q))"
    by (simp add: count_def)
  also have "unat (of_nat (Suc (count q)) :: 64 word) = Suc (count q)"
    using assms by (intro unat_of_nat_small [of k]) (simp_all add: ring_shape_def)
  finally show ?thesis .
qed

lemma count_dequeued:
  assumes "0 < count q"
  shows "count (dequeued q) = count q - 1"
proof -
  have nz: "enqueue_pos q - dequeue_pos q \<noteq> 0"
    using assms by (auto simp: count_def)
  have "count (dequeued q) = unat (enqueue_pos q - (dequeue_pos q + 1))"
    by (simp add: count_def dequeued_def)
  also have "enqueue_pos q - (dequeue_pos q + 1) = (enqueue_pos q - dequeue_pos q) - 1"
    by simp
  also have "unat \<dots> = unat (enqueue_pos q - dequeue_pos q) - 1"
    using nz by (rule unat_minus_one)
  finally show ?thesis by (simp add: count_def)
qed

lemma slots_okD:
  "slots_ok q \<Longrightarrow> j < length (buffer q) \<Longrightarrow>
   (if j < count q then read_ready q (dequeue_pos q + of_nat j)
    else write_ready q (dequeue_pos q + of_nat j))"
  by (simp add: slots_ok_def)

lemma slots_okI:
  "(\<And>j. j < length (buffer q) \<Longrightarrow>
     (if j < count q then read_ready q (dequeue_pos q + of_nat j)
      else write_ready q (dequeue_pos q + of_nat j))) \<Longrightarrow> slots_ok q"
  by (simp add: slots_ok_def)

lemma enqueued_fields [simp]:
  "length (buffer (enqueued q v)) = length (buffer q)"
  "dequeue_pos (enqueued q v) = dequeue_pos q"
  "enqueue_pos (enqueued q v) = enqueue_pos q + 1"
  "buffer_mask (enqueued q v) = buffer_mask q"
  by (simp_all add: enqueued_def)

lemma dequeued_fields [simp]:
  "length (buffer (dequeued q)) = length (buffer q)"
  "dequeue_pos (dequeued q) = dequeue_pos q + 1"
  "enqueue_pos (dequeued q) = enqueue_pos q"
  "buffer_mask (dequeued q) = buffer_mask q"
  by (simp_all add: dequeued_def store_sequence_def)

lemma ready_enqueued_other:
  assumes "ring_shape q k" "slot q p \<noteq> slot q (enqueue_pos q)"
  shows "read_ready (enqueued q v) p = read_ready q p"
    and "write_ready (enqueued q v) p = write_ready q p"
  using assms by (simp_all add: read_ready_def write_ready_def) (simp_all add: enqueued_def)

lemma read_ready_enqueued_new:
  assumes "ring_shape q k"
  shows "read_ready (enqueued q v) (enqueue_pos q)"
  using slot_less [OF assms, of "enqueue_pos q"]
  by (simp add: read_ready_def) (simp add: enqueued_def)

lemma ready_dequeued_other:
  assumes "ring_shape q k" "slot q p \<noteq> slot q (dequeue_pos q)"
  shows "read_ready (dequeued q) p = read_ready q p"
    and "write_ready (dequeued q) p = write_ready q p"
  using assms by (simp_all add: read_ready_def write_ready_def)
    (simp_all add: dequeued_def store_sequence_def)

lemma write_ready_dequeued_new:
  assumes "ring_shape q k"
  shows "write_ready (dequeued q) (dequeue_pos q + 2 ^ k)"
proof -
  have "slot q (dequeue_pos q + 2 ^ k) = slot q (dequeue_pos q)"
    using assms by (rule slot_lap)
  moreover have "dequeue_pos q + buffer_mask q + 1 = dequeue_pos q + 2 ^ k"
    using assms by (simp add: ring_shape_def)
  ultimately show ?thesis
    using slot_less [OF assms, of "dequeue_pos q"]
    by (simp add: write_ready_def) (simp add: dequeued_def store_sequence_def)
qed

lemma slots_ok_enqueued:
  assumes sh: "ring_shape q k" and ok: "slots_ok q" and c: "count q < 2 ^ k"
  shows "slots_ok (enqueued q v)"
proof -
  have len: "length (buffer q) = 2 ^ k" using sh by (simp add: ring_shape_def)
  have cnt: "count (enqueued q v) = Suc (count q)" using sh c by (rule count_enqueued)
  have e: "enqueue_pos q = dequeue_pos q + of_nat (count q)" by (rule enqueue_pos_offset)
  have "if j < Suc (count q) then read_ready (enqueued q v) (dequeue_pos q + of_nat j)
        else write_ready (enqueued q v) (dequeue_pos q + of_nat j)"
    if j: "j < 2 ^ k" for j
  proof (cases "j = count q")
    case True
    then show ?thesis using read_ready_enqueued_new [OF sh, of v] e by simp
  next
    case False
    have "slot q (dequeue_pos q + of_nat j) \<noteq> slot q (dequeue_pos q + of_nat (count q))"
      using slot_offset_inj [OF sh j c] False by blast
    then have ne: "slot q (dequeue_pos q + of_nat j) \<noteq> slot q (enqueue_pos q)"
      using e by simp
    have "if j < count q then read_ready q (dequeue_pos q + of_nat j)
          else write_ready q (dequeue_pos q + of_nat j)"
      by (rule slots_okD [OF ok]) (simp add: len j)
    then show ?thesis
      using False by (auto simp: ready_enqueued_other [OF sh ne])
  qed
  then show ?thesis
    by (intro slots_okI) (simp add: cnt len)
qed

lemma slots_ok_dequeued:
  assumes sh: "ring_shape q k" and ok: "slots_ok q" and c: "0 < count q"
    and le: "count q \<le> 2 ^ k"
  shows "slots_ok (dequeued q)"
proof -
  have len: "length (buffer q) = 2 ^ k" using sh by (simp add: ring_shape_def)
  have cnt: "count (dequeued q) = count q - 1" using c by (rule count_dequeued)
  have pos: "(0::nat) < 2 ^ k" by simp
  have "if j < count q - 1 then read_ready (dequeued q) (dequeue_pos q + 1 + of_nat j)
        else write_ready (dequeued q) (dequeue_pos q + 1 + of_nat j)"
    if j: "j < 2 ^ k" for j
  proof (cases "Suc j < 2 ^ k")
    case True
    define p where "p = dequeue_pos q + of_nat (Suc j)"
    have p: "dequeue_pos q + 1 + of_nat j = p" by (simp add: p_def)
    have "slot q (dequeue_pos q + of_nat (Suc j)) \<noteq> slot q (dequeue_pos q + of_nat 0)"
      using slot_offset_inj [OF sh True pos] by blast
    then have ne: "slot q p \<noteq> slot q (dequeue_pos q)"
      by (simp add: p_def)
    have "if Suc j < count q then read_ready q (dequeue_pos q + of_nat (Suc j))
          else write_ready q (dequeue_pos q + of_nat (Suc j))"
      by (rule slots_okD [OF ok]) (simp add: len True)
    then have "if Suc j < count q then read_ready q p else write_ready q p"
      by (simp only: p_def)
    moreover have "Suc j < count q \<longleftrightarrow> j < count q - 1" using c by auto
    ultimately show ?thesis
      unfolding p by (simp add: ready_dequeued_other [OF sh ne])
  next
    case False
    with j have jk: "Suc j = 2 ^ k" by simp
    have "dequeue_pos q + 1 + of_nat j = dequeue_pos q + of_nat (Suc j)" by simp
    also have "\<dots> = dequeue_pos q + 2 ^ k" by (simp only: jk of_nat_power of_nat_numeral)
    finally have p: "dequeue_pos q + 1 + of_nat j = dequeue_pos q + 2 ^ k" .
    have "\<not> j < count q - 1" using jk le by simp
    then show ?thesis
      unfolding p using write_ready_dequeued_new [OF sh] by simp
  qed
  then show ?thesis
    by (intro slots_okI) (simp add: cnt len)
qed

section \<open>What each call does on a well-formed ring\<close>

lemma enqueue_not_full:
  assumes "queue_inv q" "count q < length (buffer q)"
  shows "enqueue q v = Some (True, enqueued q v)"
proof -
  have "if count q < count q then read_ready q (dequeue_pos q + of_nat (count q))
        else write_ready q (dequeue_pos q + of_nat (count q))"
    using assms by (intro slots_okD) (simp_all add: queue_inv_def)
  then have "write_ready q (enqueue_pos q)"
    by (simp add: enqueue_pos_offset [symmetric])
  then show ?thesis
    using queue_inv_slot_less [OF assms(1)] by (simp add: enqueue_def enqueue_loop_ready)
qed

lemma enqueue_full:
  assumes "queue_inv q" "count q = length (buffer q)"
  shows "enqueue q v = Some (False, q)"
proof -
  from assms obtain k where sh: "ring_shape q k" and ok: "slots_ok q"
    by (auto simp: queue_inv_def)
  have len: "length (buffer q) = 2 ^ k" and k: "1 \<le> k" "k < 64"
    using sh by (simp_all add: ring_shape_def)
  have e: "enqueue_pos q = dequeue_pos q + 2 ^ k"
  proof -
    have "enqueue_pos q = dequeue_pos q + of_nat (2 ^ k)"
      using assms len by (simp only: enqueue_pos_offset [of q])
    then show ?thesis by (simp only: of_nat_power of_nat_numeral)
  qed
  have "if 0 < count q then read_ready q (dequeue_pos q + of_nat 0)
        else write_ready q (dequeue_pos q + of_nat 0)"
    by (rule slots_okD [OF ok]) (simp add: len)
  then have "sequence (buffer q ! slot q (dequeue_pos q)) = dequeue_pos q + 1"
    using assms len by (simp add: read_ready_def)
  moreover have "slot q (enqueue_pos q) = slot q (dequeue_pos q)"
    unfolding e using sh by (rule slot_lap)
  ultimately have "sequence (buffer q ! slot q (enqueue_pos q)) - enqueue_pos q = 1 - 2 ^ k"
    by (simp add: e)
  then have "sint (sequence (buffer q ! slot q (enqueue_pos q)) - enqueue_pos q) < 0"
    using sint_full [OF k] by simp
  then show ?thesis
    using queue_inv_slot_less [OF assms(1)] by (simp add: enqueue_def enqueue_loop_behind)
qed

lemma dequeue_not_empty:
  assumes "queue_inv q" "0 < count q"
  shows "dequeue q d = Some (True, data (buffer q ! slot q (dequeue_pos q)), dequeued q)"
proof -
  have "if 0 < count q then read_ready q (dequeue_pos q + of_nat 0)
        else write_ready q (dequeue_pos q + of_nat 0)"
    using assms by (intro slots_okD) (auto simp: queue_inv_def)
  then have "read_ready q (dequeue_pos q)" using assms by simp
  then show ?thesis
    using queue_inv_slot_less [OF assms(1)] by (simp add: dequeue_def dequeue_loop_ready)
qed

lemma dequeue_empty:
  assumes "queue_inv q" "count q = 0"
  shows "dequeue q d = Some (False, d, q)"
proof -
  from assms obtain k where sh: "ring_shape q k" and ok: "slots_ok q"
    by (auto simp: queue_inv_def)
  have len: "length (buffer q) = 2 ^ k" using sh by (simp add: ring_shape_def)
  have "if 0 < count q then read_ready q (dequeue_pos q + of_nat 0)
        else write_ready q (dequeue_pos q + of_nat 0)"
    by (rule slots_okD [OF ok]) (simp add: len)
  then have "sequence (buffer q ! slot q (dequeue_pos q)) = dequeue_pos q"
    using assms by (simp add: write_ready_def)
  then have "sint (sequence (buffer q ! slot q (dequeue_pos q)) - (dequeue_pos q + 1)) < 0"
    by simp
  then show ?thesis
    using queue_inv_slot_less [OF assms(1)] by (simp add: dequeue_def dequeue_loop_behind)
qed

lemma queue_inv_enqueued:
  assumes "queue_inv q" "count q < length (buffer q)"
  shows "queue_inv (enqueued q v)"
proof -
  from assms obtain k where sh: "ring_shape q k" and ok: "slots_ok q"
    by (auto simp: queue_inv_def)
  have len: "length (buffer q) = 2 ^ k" using sh by (simp add: ring_shape_def)
  have "count (enqueued q v) = Suc (count q)"
    using sh assms(2) len by (intro count_enqueued) simp_all
  moreover have "slots_ok (enqueued q v)"
    using sh ok assms(2) len by (intro slots_ok_enqueued) simp_all
  ultimately show ?thesis using sh assms(2) by (auto simp: queue_inv_def)
qed

lemma queue_inv_dequeued:
  assumes "queue_inv q" "0 < count q"
  shows "queue_inv (dequeued q)"
proof -
  from assms obtain k where sh: "ring_shape q k" and ok: "slots_ok q"
    and le: "count q \<le> length (buffer q)"
    by (auto simp: queue_inv_def)
  have len: "length (buffer q) = 2 ^ k" using sh by (simp add: ring_shape_def)
  have "count (dequeued q) = count q - 1" using assms(2) by (rule count_dequeued)
  moreover have "slots_ok (dequeued q)"
    using sh ok assms(2) le len by (intro slots_ok_dequeued) simp_all
  ultimately show ?thesis using sh le by (auto simp: queue_inv_def)
qed

lemma contents_enqueued:
  assumes "queue_inv q" "count q < length (buffer q)"
  shows "contents (enqueued q v) = contents q @ [v]"
proof -
  from assms obtain k where sh: "ring_shape q k" by (auto simp: queue_inv_def)
  have len: "length (buffer q) = 2 ^ k" using sh by (simp add: ring_shape_def)
  have c: "count q < 2 ^ k" using assms(2) len by simp
  have cnt: "count (enqueued q v) = Suc (count q)" using sh c by (rule count_enqueued)
  have e: "enqueue_pos q = dequeue_pos q + of_nat (count q)" by (rule enqueue_pos_offset)
  have new: "data (buffer (enqueued q v) ! slot q (dequeue_pos q + of_nat (count q))) = v"
    using slot_less [OF sh, of "enqueue_pos q"] by (simp add: e [symmetric]) (simp add: enqueued_def)
  have old: "data (buffer (enqueued q v) ! slot q (dequeue_pos q + of_nat j))
             = data (buffer q ! slot q (dequeue_pos q + of_nat j))" if "j < count q" for j
  proof -
    have "j < 2 ^ k" using that c by simp
    then have "slot q (dequeue_pos q + of_nat j) \<noteq> slot q (dequeue_pos q + of_nat (count q))"
      using slot_offset_inj [OF sh _ c] that by blast
    then show ?thesis by (simp add: e [symmetric]) (simp add: enqueued_def)
  qed
  show ?thesis
    by (simp add: contents_def cnt new old)
qed

lemma contents_dequeued:
  assumes "queue_inv q" "0 < count q"
  shows "contents q = data (buffer q ! slot q (dequeue_pos q)) # contents (dequeued q)"
proof -
  from assms obtain k where sh: "ring_shape q k" by (auto simp: queue_inv_def)
  have cnt: "count (dequeued q) = count q - 1" using assms(2) by (rule count_dequeued)
  have d: "data (buffer (dequeued q) ! i) = data (buffer q ! i)" for i
    by (cases "i = slot q (dequeue_pos q)")
      (simp_all add: dequeued_def store_sequence_def slot_less [OF sh])
  have "[0..<count q] = 0 # [Suc 0..<count q]"
    using assms(2) by (rule upt_conv_Cons)
  also have "[Suc 0..<count q] = map Suc [0..<count q - 1]"
    using assms(2) by (simp add: map_Suc_upt)
  finally have "[0..<count q] = 0 # map Suc [0..<count q - 1]" .
  then have "contents q = data (buffer q ! slot q (dequeue_pos q))
      # map (\<lambda>j. data (buffer q ! slot q (dequeue_pos q + of_nat (Suc j)))) [0..<count q - 1]"
    by (simp add: contents_def comp_def del: of_nat_Suc)
  also have "map (\<lambda>j. data (buffer q ! slot q (dequeue_pos q + of_nat (Suc j)))) [0..<count q - 1]
      = contents (dequeued q)"
    by (simp add: contents_def cnt d add.assoc)
  finally show ?thesis .
qed

lemma length_contents [simp]: "length (contents q) = count q"
  by (simp add: contents_def)

section \<open>The constructor\<close>

lemma length_store_sequence [simp]: "length (store_sequence b i s) = length b"
  by (simp add: store_sequence_def)

lemma init_sequences_Suc:
  "init_sequences (Suc n) b = store_sequence (init_sequences n b) n (of_nat n)"
  by (simp add: init_sequences_def)

lemma length_init_sequences [simp]: "length (init_sequences n b) = length b"
  by (induction n) (simp_all add: init_sequences_Suc, simp add: init_sequences_def)

lemma nth_init_sequences:
  "i < length b \<Longrightarrow>
   init_sequences n b ! i = (if i < n then (b ! i)\<lparr>sequence := of_nat i\<rparr> else b ! i)"
proof (induction n)
  case 0
  then show ?case by (simp add: init_sequences_def)
next
  case (Suc n)
  then show ?case
    by (cases "i = n") (simp_all add: init_sequences_Suc store_sequence_def)
qed

lemma new_MPMCQueue_Inr:
  assumes "new_MPMCQueue ms n dflt = Inr q"
  shows "assert_cond n" and "length (buffer q) = unat n" and "buffer_mask q = n - 1"
    and "enqueue_pos q = 0" and "dequeue_pos q = 0"
    and "\<And>i. i < unat n \<Longrightarrow> buffer q ! i = \<lparr>sequence = of_nat i, data = dflt\<rparr>"
  using assms
  by (auto simp: new_MPMCQueue_def Let_def nth_init_sequences split: if_splits)

lemma new_MPMCQueue_inv:
  assumes "new_MPMCQueue ms n dflt = Inr q"
  shows "queue_inv q" and "count q = 0"
proof -
  note f = new_MPMCQueue_Inr [OF assms]
  from f(1) obtain k where k: "1 \<le> k" "k < 64" "n = 2 ^ k"
    using assert_cond_imp_pow2 by blast
  have un: "unat n = 2 ^ k" using k by (simp add: unat_exp)
  have sh: "ring_shape q k" using f(2,3) k un by (simp add: ring_shape_def)
  show c: "count q = 0" using f(4,5) by (simp add: count_def)
  have "write_ready q (dequeue_pos q + of_nat j)" if "j < 2 ^ k" for j
  proof -
    have "slot q (0 + of_nat j) = (unat (0 :: 64 word) + j) mod 2 ^ k"
      using sh by (rule slot_offset)
    then have "slot q (of_nat j) = j" using that by simp
    then show ?thesis using f(6) [of j] that un f(5) by (simp add: write_ready_def)
  qed
  then have "slots_ok q" using c f(2) un by (intro slots_okI) simp
  then show "queue_inv q" using sh c by (auto simp: queue_inv_def)
qed

section \<open>Runs of calls\<close>

lemma call_step_cases:
  assumes "queue_inv q"
  obtains
    (enq_ok) v where "c = Enqueue v" "count q < length (buffer q)"
      "call_step q c = Some (EnqueueRet True, enqueued q v)"
  | (enq_full) v where "c = Enqueue v" "count q = length (buffer q)"
      "call_step q c = Some (EnqueueRet False, q)"
  | (deq_ok) d where "c = Dequeue d" "0 < count q"
      "call_step q c = Some (DequeueRet True (data (buffer q ! slot q (dequeue_pos q))), dequeued q)"
  | (deq_empty) d where "c = Dequeue d" "count q = 0"
      "call_step q c = Some (DequeueRet False d, q)"
proof (cases c)
  case (Enqueue v)
  show ?thesis
  proof (cases "count q < length (buffer q)")
    case True
    then show ?thesis using Enqueue assms by (intro enq_ok [of v]) (simp_all add: enqueue_not_full)
  next
    case False
    with assms have "count q = length (buffer q)" by (simp add: queue_inv_def)
    then show ?thesis using Enqueue assms by (intro enq_full [of v]) (simp_all add: enqueue_full)
  qed
next
  case (Dequeue d)
  show ?thesis
  proof (cases "0 < count q")
    case True
    then show ?thesis using Dequeue assms by (intro deq_ok [of d]) (simp_all add: dequeue_not_empty)
  next
    case False
    then show ?thesis using Dequeue assms by (intro deq_empty [of d]) (simp_all add: dequeue_empty)
  qed
qed

lemma call_step_sim:
  assumes "queue_inv q"
  shows "\<exists>q'. call_step q c = Some (fst (fifo_step (length (buffer q)) (contents q) c), q')
            \<and> queue_inv q' \<and> contents q' = snd (fifo_step (length (buffer q)) (contents q) c)
            \<and> length (buffer q') = length (buffer q)"
proof (rule call_step_cases [OF assms, of c])
  fix v
  assume enq_ok: "c = Enqueue v" "count q < length (buffer q)"
    "call_step q c = Some (EnqueueRet True, enqueued q v)"
  from enq_ok show ?thesis using assms by (simp add: queue_inv_enqueued contents_enqueued)
next
  fix v
  assume "c = Enqueue v" "count q = length (buffer q)"
    "call_step q c = Some (EnqueueRet False, q)"
  then show ?thesis using assms by simp
next
  fix d
  assume deq_ok: "c = Dequeue d" "0 < count q"
    "call_step q c =
       Some (DequeueRet True (data (buffer q ! slot q (dequeue_pos q))), dequeued q)"
  then show ?thesis
    using assms contents_dequeued [OF assms deq_ok(2)] by (simp add: queue_inv_dequeued)
next
  fix d
  assume deq_empty: "c = Dequeue d" "count q = 0"
    "call_step q c = Some (DequeueRet False d, q)"
  then have "contents q = []" by (simp add: contents_def)
  then show ?thesis using deq_empty assms by simp
qed

lemma run_sim:
  assumes "queue_inv q"
  shows "\<exists>q'. run q cs = Some (fst (fifo_run (length (buffer q)) (contents q) cs), q')
            \<and> queue_inv q' \<and> contents q' = snd (fifo_run (length (buffer q)) (contents q) cs)
            \<and> length (buffer q') = length (buffer q)"
  using assms
proof (induction cs arbitrary: q)
  case Nil
  then show ?case by simp
next
  case (Cons c cs)
  from call_step_sim [OF Cons.prems, of c] obtain q1 where
    s: "call_step q c = Some (fst (fifo_step (length (buffer q)) (contents q) c), q1)"
    and i: "queue_inv q1"
    and c: "contents q1 = snd (fifo_step (length (buffer q)) (contents q) c)"
    and l: "length (buffer q1) = length (buffer q)"
    by blast
  from Cons.IH [OF i] obtain q' where
    "run q1 cs = Some (fst (fifo_run (length (buffer q1)) (contents q1) cs), q')"
    "queue_inv q'" "contents q' = snd (fifo_run (length (buffer q1)) (contents q1) cs)"
    "length (buffer q') = length (buffer q1)"
    by blast
  then show ?case using s c l by (simp add: Let_def)
qed

lemma new_MPMCQueue_2:
  "2 \<le> ms \<Longrightarrow> new_MPMCQueue ms 2 d =
     Inr \<lparr>buffer = [\<lparr>sequence = 0, data = d\<rparr>, \<lparr>sequence = 1, data = d\<rparr>],
          buffer_mask = 1, enqueue_pos = 0, dequeue_pos = 0\<rparr>"
proof -
  have u: "unat (2 :: 64 word) = Suc (Suc 0)" by simp
  have a: "assert_cond 2" by (simp add: assert_cond_def)
  assume "2 \<le> ms"
  then show ?thesis
    unfolding new_MPMCQueue_def u
    by (simp add: a init_sequences_def store_sequence_def)
qed

lemma run_counters:
  assumes "queue_inv q" "run q cs = Some (rs, q')"
  shows "queue_inv q' \<and> length (buffer q') = length (buffer q)
       \<and> buffer_mask q' = buffer_mask q
       \<and> enqueue_pos q' = enqueue_pos q + of_nat (succ_enq rs)
       \<and> dequeue_pos q' = dequeue_pos q + of_nat (succ_deq rs)
       \<and> count q' + succ_deq rs = count q + succ_enq rs
       \<and> length rs = length cs"
  using assms
proof (induction cs arbitrary: q rs)
  case Nil
  then show ?case by simp
next
  case (Cons c cs)
  from Cons.prems(2) obtain r q1 rs1 where
    step: "call_step q c = Some (r, q1)" and rest: "run q1 cs = Some (rs1, q')"
    and rs: "rs = r # rs1"
    by (auto split: option.splits)
  have one: "queue_inv q1 \<and> length (buffer q1) = length (buffer q)
       \<and> buffer_mask q1 = buffer_mask q
       \<and> enqueue_pos q1 = enqueue_pos q + of_nat (succ_enq [r])
       \<and> dequeue_pos q1 = dequeue_pos q + of_nat (succ_deq [r])
       \<and> count q1 + succ_deq [r] = count q + succ_enq [r]"
  proof (rule call_step_cases [OF Cons.prems(1), of c])
    fix v
    assume a: "c = Enqueue v" "count q < length (buffer q)"
      "call_step q c = Some (EnqueueRet True, enqueued q v)"
    from Cons.prems(1) obtain k where sh: "ring_shape q k" by (auto simp: queue_inv_def)
    have "count (enqueued q v) = Suc (count q)"
      using sh a(2) by (intro count_enqueued) (simp_all add: ring_shape_def)
    then show ?thesis
      using a step Cons.prems(1) by (auto simp: queue_inv_enqueued)
  next
    fix v
    assume "c = Enqueue v" "count q = length (buffer q)"
      "call_step q c = Some (EnqueueRet False, q)"
    then show ?thesis using step Cons.prems(1) by auto
  next
    fix d
    assume a: "c = Dequeue d" "0 < count q"
      "call_step q c =
         Some (DequeueRet True (data (buffer q ! slot q (dequeue_pos q))), dequeued q)"
    have "count (dequeued q) = count q - 1" using a(2) by (rule count_dequeued)
    then show ?thesis
      using a step Cons.prems(1) by (auto simp: queue_inv_dequeued)
  next
    fix d
    assume "c = Dequeue d" "count q = 0" "call_step q c = Some (DequeueRet False d, q)"
    then show ?thesis using step Cons.prems(1) by auto
  qed
  then have i1: "queue_inv q1" by simp
  from Cons.IH [OF i1 rest] one show ?case
    unfolding rs by (cases r) (auto simp: algebra_simps)
qed

lemma fifo_run_enqueues:
  "length xs + length vs = cap \<Longrightarrow>
   fifo_run cap xs (map Enqueue vs @ [Enqueue v])
     = (replicate (length vs) (EnqueueRet True) @ [EnqueueRet False], xs @ vs)"
  by (induction vs arbitrary: xs) (simp_all add: Let_def)

lemma fifo_run_dequeues_empty:
  "fifo_run cap [] (replicate m (Dequeue d) @ cs)
     = (replicate m (DequeueRet False d) @ fst (fifo_run cap [] cs), snd (fifo_run cap [] cs))"
  by (induction m) (simp_all add: Let_def)

text \<open>Rules that evaluate a call on a concrete ring.\<close>

lemmas queue_eval =
  enqueue_def dequeue_def enqueue_loop_ready enqueue_loop_behind dequeue_loop_ready
  dequeue_loop_behind write_ready_def read_ready_def slot_def enqueued_def dequeued_def
  store_sequence_def

section \<open>Capacities the constructor accepts\<close>






section \<open>Cells and the positions they serve\<close>

lemma slot_offset_surj:
  assumes sh: "ring_shape q k" and i: "i < 2 ^ k"
  shows "\<exists>j < 2 ^ k. slot q (p + of_nat j) = i"
proof -
  define N :: nat where "N = 2 ^ k"
  define a where "a = unat p mod N"
  define j where "j = (i + N - a) mod N"
  have Npos: "0 < N" by (simp add: N_def)
  have a: "a < N" using Npos by (simp add: a_def)
  have "(unat p + j) mod N = (a + (i + N - a)) mod N"
    unfolding j_def a_def by (rule mod_add_cong) simp_all
  also have "a + (i + N - a) = i + N" using a by simp
  also have "(i + N) mod N = i" using i by (simp add: N_def)
  finally have "(unat p + j) mod N = i" .
  then have "slot q (p + of_nat j) = i"
    using slot_offset [OF sh, of p j] by (simp add: N_def)
  moreover have "j < 2 ^ k" using Npos by (simp add: j_def N_def)
  ultimately show ?thesis by blast
qed

lemma full_not_write_ready:
  assumes "queue_inv q" "count q = length (buffer q)"
  shows "\<not> write_ready q (enqueue_pos q)"
proof
  assume "write_ready q (enqueue_pos q)"
  then have "enqueue q (data (buffer q ! 0))
      = Some (True, enqueued q (data (buffer q ! 0)))"
    using queue_inv_slot_less [OF assms(1)] by (simp add: enqueue_def enqueue_loop_ready)
  with enqueue_full [OF assms, of "data (buffer q ! 0)"] show False by simp
qed

lemma empty_not_read_ready:
  assumes "queue_inv q" "count q = 0"
  shows "\<not> read_ready q (dequeue_pos q)"
proof
  assume "read_ready q (dequeue_pos q)"
  then have "dequeue q (data (buffer q ! 0))
      = Some (True, data (buffer q ! slot q (dequeue_pos q)), dequeued q)"
    using queue_inv_slot_less [OF assms(1)] by (simp add: dequeue_def dequeue_loop_ready)
  with dequeue_empty [OF assms, of "data (buffer q ! 0)"] show False by simp
qed

lemma sequence_enqueued:
  assumes "ring_shape q k"
  shows "sequence (buffer (enqueued q v) ! slot q (enqueue_pos q)) = enqueue_pos q + 1"
  using slot_less [OF assms, of "enqueue_pos q"] by (simp add: enqueued_def)

lemma sequence_dequeued:
  assumes "ring_shape q k"
  shows "sequence (buffer (dequeued q) ! slot q (dequeue_pos q))
         = dequeue_pos q + buffer_mask q + 1"
  using slot_less [OF assms, of "dequeue_pos q"] by (simp add: dequeued_def store_sequence_def)

section \<open>Runs that wrap the counters\<close>

lemma fifo_run_pairs:
  "0 < cap \<Longrightarrow>
   fifo_run cap [] (concat (replicate m [Enqueue v, Dequeue d]) @ cs)
     = (concat (replicate m [EnqueueRet True, DequeueRet True v]) @ fst (fifo_run cap [] cs),
        snd (fifo_run cap [] cs))"
  by (induction m) (simp_all add: Let_def)

lemma fifo_run_pairs_only:
  "0 < cap \<Longrightarrow>
   fifo_run cap [] (concat (replicate m [Enqueue v, Dequeue d]))
     = (concat (replicate m [EnqueueRet True, DequeueRet True v]), [])"
  using fifo_run_pairs [of cap m v d "[]"] by simp

lemma succ_enq_append: "succ_enq (rs @ rs') = succ_enq rs + succ_enq rs'"
  by (induction rs rule: succ_enq.induct) simp_all

lemma succ_deq_append: "succ_deq (rs @ rs') = succ_deq rs + succ_deq rs'"
  by (induction rs rule: succ_deq.induct) simp_all

lemma succ_pairs:
  "succ_enq (concat (replicate m [EnqueueRet True, DequeueRet True v])) = m"
  "succ_deq (concat (replicate m [EnqueueRet True, DequeueRet True v])) = m"
  by (induction m) simp_all

lemma run_pairs_then_enqueue:
  assumes "new_MPMCQueue ms n dflt = Inr q0"
  shows "\<exists>q. run q0 (concat (replicate m [Enqueue v, Dequeue d]) @ [Enqueue w])
               = Some (concat (replicate m [EnqueueRet True, DequeueRet True v])
                        @ [EnqueueRet True], q)
           \<and> enqueue_pos q = of_nat m + 1 \<and> dequeue_pos q = of_nat m"
proof -
  have i0: "queue_inv q0" and c0: "count q0 = 0"
    using assms by (rule new_MPMCQueue_inv)+
  note f = new_MPMCQueue_Inr [OF assms]
  from i0 obtain k where "ring_shape q0 k" by (auto simp: queue_inv_def)
  then have pos: "0 < length (buffer q0)" by (simp add: ring_shape_def)
  have e: "contents q0 = []" using c0 by (simp add: contents_def)
  let ?cs = "concat (replicate m [Enqueue v, Dequeue d]) @ [Enqueue w]"
  let ?rs = "concat (replicate m [EnqueueRet True, DequeueRet True v]) @ [EnqueueRet True]"
  from run_sim [OF i0, of ?cs] obtain q where r: "run q0 ?cs = Some (?rs, q)"
    using pos by (auto simp: e fifo_run_pairs)
  from run_counters [OF i0 r]
  have "enqueue_pos q = of_nat m + 1 \<and> dequeue_pos q = of_nat m"
    by (simp add: f succ_enq_append succ_deq_append succ_pairs)
  with r show ?thesis by blast
qed

lemma run_pairs:
  assumes "new_MPMCQueue ms n dflt = Inr q0"
  shows "\<exists>q. run q0 (concat (replicate m [Enqueue v, Dequeue d]))
               = Some (concat (replicate m [EnqueueRet True, DequeueRet True v]), q)
           \<and> enqueue_pos q = of_nat m \<and> dequeue_pos q = of_nat m"
proof -
  have i0: "queue_inv q0" and c0: "count q0 = 0"
    using assms by (rule new_MPMCQueue_inv)+
  note f = new_MPMCQueue_Inr [OF assms]
  from i0 obtain k where "ring_shape q0 k" by (auto simp: queue_inv_def)
  then have pos: "0 < length (buffer q0)" by (simp add: ring_shape_def)
  have e: "contents q0 = []" using c0 by (simp add: contents_def)
  let ?cs = "concat (replicate m [Enqueue v, Dequeue d])"
  let ?rs = "concat (replicate m [EnqueueRet True, DequeueRet True v])"
  from run_sim [OF i0, of ?cs] obtain q where r: "run q0 ?cs = Some (?rs, q)"
    using pos by (auto simp: e fifo_run_pairs_only)
  from run_counters [OF i0 r]
  have "enqueue_pos q = of_nat m \<and> dequeue_pos q = of_nat m"
    by (simp add: f succ_pairs)
  with r show ?thesis by blast
qed

lemma of_nat_max_word: "(of_nat (2 ^ 64 - 1) :: size_t) = 18446744073709551615"
  by simp

lemma unat_of_nat_64: "m < 2 ^ 64 \<Longrightarrow> unat (of_nat m :: size_t) = m"
  by (simp add: unat_of_nat)

lemma succ_single_le: "succ_enq [r] \<le> 1" "succ_deq [r] \<le> 1"
  by (cases r; simp)+

section \<open>The claims of the specification\<close>

text \<open>
  Claim C1. Started on a queue built with a valid capacity, every sequence of calls
  run one after the other returns what the abstract bounded FIFO queue of that capacity
  returns on the same calls, and holds the same values in the same order afterwards:
  a successful dequeue yields the oldest value not yet removed, a successful enqueue
  appends its value as the newest.
\<close>

theorem queue_refines_bounded_fifo:
  assumes "new_MPMCQueue ms n dflt = Inr q0"
  shows "\<exists>q. run q0 cs = Some (fst (fifo_run (unat n) [] cs), q)
           \<and> contents q = snd (fifo_run (unat n) [] cs)"
proof -
  have i: "queue_inv q0" and c: "count q0 = 0"
    using assms by (rule new_MPMCQueue_inv)+
  have l: "length (buffer q0) = unat n" using assms by (rule new_MPMCQueue_Inr)
  have e: "contents q0 = []" using c by (simp add: contents_def)
  from run_sim [OF i, of cs] show ?thesis by (auto simp: l e)
qed

theorem queue_refines_bounded_fifo_witness:
  "new_MPMCQueue 576460752303423487 2 (0::nat) =
     Inr \<lparr>buffer = [\<lparr>sequence = 0, data = 0\<rparr>, \<lparr>sequence = 1, data = 0\<rparr>],
          buffer_mask = 1, enqueue_pos = 0, dequeue_pos = 0\<rparr>
   \<and> (\<exists>q. run \<lparr>buffer = [\<lparr>sequence = 0, data = 0::nat\<rparr>, \<lparr>sequence = 1, data = 0\<rparr>],
          buffer_mask = 1, enqueue_pos = 0, dequeue_pos = 0\<rparr>
          [Enqueue 5, Enqueue 6, Enqueue 7, Dequeue 0, Dequeue 0, Dequeue 0, Enqueue 8, Dequeue 1]
        = Some ([EnqueueRet True, EnqueueRet True, EnqueueRet False, DequeueRet True 5,
                 DequeueRet True 6, DequeueRet False 0, EnqueueRet True, DequeueRet True 8], q)
        \<and> contents q = [])"
proof -
  have h: "new_MPMCQueue 576460752303423487 2 (0::nat) =
     Inr \<lparr>buffer = [\<lparr>sequence = 0, data = 0\<rparr>, \<lparr>sequence = 1, data = 0\<rparr>],
          buffer_mask = 1, enqueue_pos = 0, dequeue_pos = 0\<rparr>"
    by (simp add: new_MPMCQueue_2)
  show ?thesis
    using h queue_refines_bounded_fifo [OF h,
        of "[Enqueue 5, Enqueue 6, Enqueue 7, Dequeue 0, Dequeue 0, Dequeue 0, Enqueue 8, Dequeue 1]"]
    by (simp add: Let_def)
qed

text \<open>
  Claim C2. In every state that a run reaches from a fresh queue of capacity \<open>n\<close>:

  \<^item> the ring index of a position is the position modulo \<open>n\<close>, so position \<open>p\<close> is
    index \<open>i\<close> in lap \<open>k\<close> with \<open>p = k * n + i\<close>, and the mask is \<open>n - 1\<close>;
  \<^item> every cell \<open>i\<close> belongs to one position \<open>p\<close> of the window of \<open>n\<close> positions that
    starts at \<open>dequeue_pos\<close>, and its sequence number is \<open>p + 1\<close> (read-ready) where
    \<open>p\<close> holds a value and \<open>p\<close> (write-ready) where it does not;
  \<^item> an enqueue succeeds exactly when the cell of \<open>enqueue_pos\<close> has sequence number
    \<open>enqueue_pos\<close>, and it stores \<open>enqueue_pos + 1\<close> there;
  \<^item> a dequeue succeeds exactly when the cell of \<open>dequeue_pos\<close> has sequence number
    \<open>dequeue_pos + 1\<close>, and it stores \<open>dequeue_pos + buffer_mask + 1\<close> there, which is
    \<open>dequeue_pos + n\<close>: the same cell is then write-ready for the position one lap later.
\<close>

theorem slot_readiness_invariant:
  assumes "new_MPMCQueue ms n dflt = Inr q0" and "run q0 cs = Some (rs, q)"
  shows "length (buffer q) = unat n \<and> buffer_mask q = n - 1
       \<and> slot q pos = unat pos mod unat n
       \<and> unat pos = (unat pos div unat n) * unat n + slot q pos
       \<and> (\<forall>i < length (buffer q). \<exists>j < length (buffer q).
             slot q (dequeue_pos q + of_nat j) = i
             \<and> sequence (buffer q ! i)
                 = (if j < count q then dequeue_pos q + of_nat j + 1
                    else dequeue_pos q + of_nat j))
       \<and> (if write_ready q (enqueue_pos q)
           then \<exists>q'. enqueue q v = Some (True, q')
                  \<and> sequence (buffer q' ! slot q (enqueue_pos q)) = enqueue_pos q + 1
           else enqueue q v = Some (False, q))
       \<and> (if read_ready q (dequeue_pos q)
           then \<exists>x q'. dequeue q d = Some (True, x, q')
                  \<and> sequence (buffer q' ! slot q (dequeue_pos q))
                      = dequeue_pos q + buffer_mask q + 1
                  \<and> dequeue_pos q + buffer_mask q + 1 = dequeue_pos q + n
                  \<and> write_ready q' (dequeue_pos q + n)
           else dequeue q d = Some (False, d, q))"
proof -
  have i0: "queue_inv q0" using assms(1) by (rule new_MPMCQueue_inv)
  note f = new_MPMCQueue_Inr [OF assms(1)]
  from run_counters [OF i0 assms(2)] have inv: "queue_inv q"
    and len: "length (buffer q) = unat n" and mask: "buffer_mask q = n - 1"
    by (simp_all add: f)
  from inv obtain k where sh: "ring_shape q k" and ok: "slots_ok q"
    and le: "count q \<le> length (buffer q)"
    by (auto simp: queue_inv_def)
  have un: "unat n = 2 ^ k" using sh len by (simp add: ring_shape_def)
  have n: "n = 2 ^ k"
  proof -
    have "n = of_nat (unat n)" by simp
    also have "\<dots> = 2 ^ k" by (simp only: un of_nat_power of_nat_numeral)
    finally show ?thesis .
  qed
  have sl: "slot q pos = unat pos mod unat n" using sh by (simp add: slot_mod un)
  have lap: "unat pos = (unat pos div unat n) * unat n + slot q pos"
    by (simp add: sl)
  have cells: "\<forall>i < length (buffer q). \<exists>j < length (buffer q).
             slot q (dequeue_pos q + of_nat j) = i
             \<and> sequence (buffer q ! i)
                 = (if j < count q then dequeue_pos q + of_nat j + 1
                    else dequeue_pos q + of_nat j)"
  proof (intro allI impI)
    fix i assume "i < length (buffer q)"
    then have "i < 2 ^ k" by (simp add: len un)
    from slot_offset_surj [OF sh this, of "dequeue_pos q"] obtain j
      where j: "j < 2 ^ k" "slot q (dequeue_pos q + of_nat j) = i" by blast
    have "if j < count q then read_ready q (dequeue_pos q + of_nat j)
          else write_ready q (dequeue_pos q + of_nat j)"
      by (rule slots_okD [OF ok]) (simp add: len un j)
    then have "sequence (buffer q ! i)
                 = (if j < count q then dequeue_pos q + of_nat j + 1
                    else dequeue_pos q + of_nat j)"
      using j(2) by (auto simp: read_ready_def write_ready_def split: if_splits)
    then show "\<exists>j < length (buffer q).
             slot q (dequeue_pos q + of_nat j) = i
             \<and> sequence (buffer q ! i)
                 = (if j < count q then dequeue_pos q + of_nat j + 1
                    else dequeue_pos q + of_nat j)"
      using j by (auto simp: len un)
  qed
  have enq: "if write_ready q (enqueue_pos q)
           then \<exists>q'. enqueue q v = Some (True, q')
                  \<and> sequence (buffer q' ! slot q (enqueue_pos q)) = enqueue_pos q + 1
           else enqueue q v = Some (False, q)"
  proof (cases "count q < length (buffer q)")
    case True
    have "if count q < count q then read_ready q (dequeue_pos q + of_nat (count q))
          else write_ready q (dequeue_pos q + of_nat (count q))"
      using ok True by (rule slots_okD)
    then have "write_ready q (enqueue_pos q)"
      by (simp add: enqueue_pos_offset [symmetric])
    then show ?thesis
      using enqueue_not_full [OF inv True, of v] sequence_enqueued [OF sh, of v] by simp
  next
    case False
    with le have "count q = length (buffer q)" by simp
    then show ?thesis
      using enqueue_full [OF inv, of v] full_not_write_ready [OF inv] by simp
  qed
  have m1: "dequeue_pos q + buffer_mask q + 1 = dequeue_pos q + n"
    by (simp add: mask)
  have deq: "if read_ready q (dequeue_pos q)
           then \<exists>x q'. dequeue q d = Some (True, x, q')
                  \<and> sequence (buffer q' ! slot q (dequeue_pos q))
                      = dequeue_pos q + buffer_mask q + 1
                  \<and> dequeue_pos q + buffer_mask q + 1 = dequeue_pos q + n
                  \<and> write_ready q' (dequeue_pos q + n)
           else dequeue q d = Some (False, d, q)"
  proof (cases "0 < count q")
    case True
    have "if 0 < count q then read_ready q (dequeue_pos q + of_nat 0)
          else write_ready q (dequeue_pos q + of_nat 0)"
      by (rule slots_okD [OF ok]) (simp add: len un)
    then have "read_ready q (dequeue_pos q)" using True by simp
    then show ?thesis
      using dequeue_not_empty [OF inv True, of d] sequence_dequeued [OF sh] m1
        write_ready_dequeued_new [OF sh]
      by (simp add: n)
  next
    case False
    then have "count q = 0" by simp
    then show ?thesis
      using dequeue_empty [OF inv, of d] empty_not_read_ready [OF inv] by simp
  qed
  show ?thesis using len mask sl lap cells enq deq by blast
qed

theorem slot_readiness_invariant_witness:
  "new_MPMCQueue 576460752303423487 2 (0::nat) =
     Inr \<lparr>buffer = [\<lparr>sequence = 0, data = 0\<rparr>, \<lparr>sequence = 1, data = 0\<rparr>],
          buffer_mask = 1, enqueue_pos = 0, dequeue_pos = 0\<rparr>
   \<and> run \<lparr>buffer = [\<lparr>sequence = 0, data = 0::nat\<rparr>, \<lparr>sequence = 1, data = 0\<rparr>],
          buffer_mask = 1, enqueue_pos = 0, dequeue_pos = 0\<rparr>
        [Enqueue 5, Dequeue 0, Enqueue 6]
      = Some ([EnqueueRet True, DequeueRet True 5, EnqueueRet True],
          \<lparr>buffer = [\<lparr>sequence = 2, data = 5\<rparr>, \<lparr>sequence = 2, data = 6\<rparr>],
           buffer_mask = 1, enqueue_pos = 2, dequeue_pos = 1\<rparr>)
   \<and> write_ready \<lparr>buffer = [\<lparr>sequence = 2, data = 5::nat\<rparr>, \<lparr>sequence = 2, data = 6\<rparr>],
           buffer_mask = 1, enqueue_pos = 2, dequeue_pos = 1\<rparr> 2
   \<and> read_ready \<lparr>buffer = [\<lparr>sequence = 2, data = 5::nat\<rparr>, \<lparr>sequence = 2, data = 6\<rparr>],
           buffer_mask = 1, enqueue_pos = 2, dequeue_pos = 1\<rparr> 1
   \<and> (\<exists>q'. enqueue \<lparr>buffer = [\<lparr>sequence = 2, data = 5::nat\<rparr>, \<lparr>sequence = 2, data = 6\<rparr>],
           buffer_mask = 1, enqueue_pos = 2, dequeue_pos = 1\<rparr> 7 = Some (True, q')
         \<and> sequence (buffer q' ! 0) = 3)
   \<and> (\<exists>x q'. dequeue \<lparr>buffer = [\<lparr>sequence = 2, data = 5::nat\<rparr>, \<lparr>sequence = 2, data = 6\<rparr>],
           buffer_mask = 1, enqueue_pos = 2, dequeue_pos = 1\<rparr> 8 = Some (True, x, q')
         \<and> sequence (buffer q' ! 1) = 3 \<and> write_ready q' 3)"
proof -
  have h: "new_MPMCQueue 576460752303423487 2 (0::nat) =
     Inr \<lparr>buffer = [\<lparr>sequence = 0, data = 0\<rparr>, \<lparr>sequence = 1, data = 0\<rparr>],
          buffer_mask = 1, enqueue_pos = 0, dequeue_pos = 0\<rparr>"
    by (simp add: new_MPMCQueue_2)
  have r: "run \<lparr>buffer = [\<lparr>sequence = 0, data = 0::nat\<rparr>, \<lparr>sequence = 1, data = 0\<rparr>],
          buffer_mask = 1, enqueue_pos = 0, dequeue_pos = 0\<rparr>
        [Enqueue 5, Dequeue 0, Enqueue 6]
      = Some ([EnqueueRet True, DequeueRet True 5, EnqueueRet True],
          \<lparr>buffer = [\<lparr>sequence = 2, data = 5\<rparr>, \<lparr>sequence = 2, data = 6\<rparr>],
           buffer_mask = 1, enqueue_pos = 2, dequeue_pos = 1\<rparr>)"
    by (simp add: queue_eval)
  have w: "write_ready \<lparr>buffer = [\<lparr>sequence = 2, data = 5::nat\<rparr>, \<lparr>sequence = 2, data = 6\<rparr>],
           buffer_mask = 1, enqueue_pos = 2, dequeue_pos = 1\<rparr> 2"
    by (simp add: write_ready_def slot_def)
  have rd: "read_ready \<lparr>buffer = [\<lparr>sequence = 2, data = 5::nat\<rparr>, \<lparr>sequence = 2, data = 6\<rparr>],
           buffer_mask = 1, enqueue_pos = 2, dequeue_pos = 1\<rparr> 1"
    by (simp add: read_ready_def slot_def)
  show ?thesis
    using h r w rd slot_readiness_invariant [OF h r, of 0 7 8]
    by (simp add: slot_def)
qed

text \<open>
  Claim C3. The number of values resident in a queue of capacity \<open>n\<close>, that is the
  successful enqueues minus the successful dequeues of the run so far, never exceeds
  \<open>n\<close>, and it is the number of values the ring holds. On a fresh queue \<open>n\<close> enqueues in
  a row succeed and the next one returns false.
\<close>

theorem capacity_bound:
  assumes "new_MPMCQueue ms n dflt = Inr q0"
  shows "(run q0 cs = Some (rs, q) \<longrightarrow>
            succ_deq rs \<le> succ_enq rs \<and> succ_enq rs - succ_deq rs \<le> unat n
            \<and> length (contents q) = succ_enq rs - succ_deq rs)
       \<and> (length vs = unat n \<longrightarrow>
            (\<exists>q'. run q0 (map Enqueue vs @ [Enqueue v])
                    = Some (replicate (unat n) (EnqueueRet True) @ [EnqueueRet False], q')))"
proof (intro conjI impI)
  have i: "queue_inv q0" and c: "count q0 = 0"
    using assms by (rule new_MPMCQueue_inv)+
  have l: "length (buffer q0) = unat n" using assms by (rule new_MPMCQueue_Inr)
  have e: "contents q0 = []" using c by (simp add: contents_def)
  {
    assume r: "run q0 cs = Some (rs, q)"
    from run_counters [OF i r] have inv: "queue_inv q" and len: "length (buffer q) = unat n"
      and cnt: "count q + succ_deq rs = succ_enq rs"
      by (simp_all add: l c)
    from inv len have le: "count q \<le> unat n" by (simp add: queue_inv_def)
    show "succ_deq rs \<le> succ_enq rs" using cnt by simp
    show "succ_enq rs - succ_deq rs \<le> unat n" using cnt le by simp
    show "length (contents q) = succ_enq rs - succ_deq rs" using cnt by simp
  }
  {
    assume v: "length vs = unat n"
    from run_sim [OF i, of "map Enqueue vs @ [Enqueue v]"]
    show "\<exists>q'. run q0 (map Enqueue vs @ [Enqueue v])
                    = Some (replicate (unat n) (EnqueueRet True) @ [EnqueueRet False], q')"
      by (auto simp: l e v fifo_run_enqueues)
  }
qed

theorem capacity_bound_witness:
  "new_MPMCQueue 576460752303423487 2 (0::nat) =
     Inr \<lparr>buffer = [\<lparr>sequence = 0, data = 0\<rparr>, \<lparr>sequence = 1, data = 0\<rparr>],
          buffer_mask = 1, enqueue_pos = 0, dequeue_pos = 0\<rparr>
   \<and> run \<lparr>buffer = [\<lparr>sequence = 0, data = 0::nat\<rparr>, \<lparr>sequence = 1, data = 0\<rparr>],
          buffer_mask = 1, enqueue_pos = 0, dequeue_pos = 0\<rparr>
        [Enqueue 5, Enqueue 6, Enqueue 7]
      = Some ([EnqueueRet True, EnqueueRet True, EnqueueRet False],
          \<lparr>buffer = [\<lparr>sequence = 1, data = 5\<rparr>, \<lparr>sequence = 2, data = 6\<rparr>],
           buffer_mask = 1, enqueue_pos = 2, dequeue_pos = 0\<rparr>)
   \<and> length [5, 6 :: nat] = unat (2 :: size_t)
   \<and> succ_enq [EnqueueRet True, EnqueueRet True, EnqueueRet False :: nat ret] - 
       succ_deq [EnqueueRet True, EnqueueRet True, EnqueueRet False :: nat ret] \<le> unat (2 :: size_t)
   \<and> (\<exists>q'. run \<lparr>buffer = [\<lparr>sequence = 0, data = 0::nat\<rparr>, \<lparr>sequence = 1, data = 0\<rparr>],
          buffer_mask = 1, enqueue_pos = 0, dequeue_pos = 0\<rparr>
        (map Enqueue [5, 6] @ [Enqueue 7])
      = Some (replicate (unat (2 :: size_t)) (EnqueueRet True) @ [EnqueueRet False], q'))"
proof -
  have h: "new_MPMCQueue 576460752303423487 2 (0::nat) =
     Inr \<lparr>buffer = [\<lparr>sequence = 0, data = 0\<rparr>, \<lparr>sequence = 1, data = 0\<rparr>],
          buffer_mask = 1, enqueue_pos = 0, dequeue_pos = 0\<rparr>"
    by (simp add: new_MPMCQueue_2)
  have r: "run \<lparr>buffer = [\<lparr>sequence = 0, data = 0::nat\<rparr>, \<lparr>sequence = 1, data = 0\<rparr>],
          buffer_mask = 1, enqueue_pos = 0, dequeue_pos = 0\<rparr>
        [Enqueue 5, Enqueue 6, Enqueue 7]
      = Some ([EnqueueRet True, EnqueueRet True, EnqueueRet False],
          \<lparr>buffer = [\<lparr>sequence = 1, data = 5\<rparr>, \<lparr>sequence = 2, data = 6\<rparr>],
           buffer_mask = 1, enqueue_pos = 2, dequeue_pos = 0\<rparr>)"
    by (simp add: queue_eval)
  have v: "length [5, 6 :: nat] = unat (2 :: size_t)" by simp
  from capacity_bound [OF h, of "[Enqueue 5, Enqueue 6, Enqueue 7]"
      "[EnqueueRet True, EnqueueRet True, EnqueueRet False]"
      "\<lparr>buffer = [\<lparr>sequence = 1, data = 5\<rparr>, \<lparr>sequence = 2, data = 6\<rparr>],
           buffer_mask = 1, enqueue_pos = 2, dequeue_pos = 0\<rparr>" "[5, 6]" 7]
  show ?thesis using h r v by blast
qed

text \<open>
  Claim C4. A failed call has no effect. In any state, an enqueue that returns false
  and a dequeue that returns false leave the queue (both counters, every sequence
  number and payload) as it was. On a queue that a run has left empty, any number of
  dequeues in a row all return false without changing the caller's variable, and an
  enqueue followed by a dequeue then succeeds and hands the value over.
\<close>

theorem failed_call_no_effect:
  "(enqueue q v = Some (False, q') \<longrightarrow> q' = q)
   \<and> (dequeue q d = Some (False, d', q') \<longrightarrow> q' = q)
   \<and> (new_MPMCQueue ms n dflt = Inr q0 \<and> run q0 cs = Some (rs, q1)
        \<and> dequeue q1 d = Some (False, d1, q2) \<longrightarrow>
        (\<exists>q3. run q1 (replicate m (Dequeue d) @ [Enqueue v, Dequeue d])
               = Some (replicate m (DequeueRet False d) @ [EnqueueRet True, DequeueRet True v],
                       q3)))"
proof (intro conjI impI)
  show "q' = q" if "enqueue q v = Some (False, q')"
    using enqueue_loop_result [of q v "enqueue_pos q" "(False, q')"] that
    by (simp add: enqueue_def)
  show "q' = q" if "dequeue q d = Some (False, d', q')"
    using dequeue_loop_result [of q d "dequeue_pos q" "(False, d', q')"] that
    by (simp add: dequeue_def)
  show "\<exists>q3. run q1 (replicate m (Dequeue d) @ [Enqueue v, Dequeue d])
               = Some (replicate m (DequeueRet False d) @ [EnqueueRet True, DequeueRet True v],
                       q3)"
    if a: "new_MPMCQueue ms n dflt = Inr q0 \<and> run q0 cs = Some (rs, q1)
        \<and> dequeue q1 d = Some (False, d1, q2)"
  proof -
    from a have a1: "new_MPMCQueue ms n dflt = Inr q0" and a2: "run q0 cs = Some (rs, q1)"
      by simp_all
    have i0: "queue_inv q0" using a1 by (rule new_MPMCQueue_inv)
    have i: "queue_inv q1" using run_counters [OF i0 a2] by simp
    have "count q1 = 0"
    proof (rule ccontr)
      assume "count q1 \<noteq> 0"
      then have "dequeue q1 d
          = Some (True, data (buffer q1 ! slot q1 (dequeue_pos q1)), dequeued q1)"
        using i by (intro dequeue_not_empty) simp_all
      with a show False by simp
    qed
    then have e: "contents q1 = []" by (simp add: contents_def)
    from i obtain k where "ring_shape q1 k" by (auto simp: queue_inv_def)
    then have pos: "0 < length (buffer q1)" by (simp add: ring_shape_def)
    from run_sim [OF i, of "replicate m (Dequeue d) @ [Enqueue v, Dequeue d]"]
    show ?thesis
      using pos by (auto simp: e fifo_run_dequeues_empty Let_def)
  qed
qed

theorem failed_call_no_effect_witness:
  "new_MPMCQueue 576460752303423487 2 (0::nat) =
     Inr \<lparr>buffer = [\<lparr>sequence = 0, data = 0\<rparr>, \<lparr>sequence = 1, data = 0\<rparr>],
          buffer_mask = 1, enqueue_pos = 0, dequeue_pos = 0\<rparr>
   \<and> run \<lparr>buffer = [\<lparr>sequence = 0, data = 0::nat\<rparr>, \<lparr>sequence = 1, data = 0\<rparr>],
          buffer_mask = 1, enqueue_pos = 0, dequeue_pos = 0\<rparr> [Enqueue 5, Dequeue 0]
      = Some ([EnqueueRet True, DequeueRet True 5],
          \<lparr>buffer = [\<lparr>sequence = 2, data = 5\<rparr>, \<lparr>sequence = 1, data = 0\<rparr>],
           buffer_mask = 1, enqueue_pos = 1, dequeue_pos = 1\<rparr>)
   \<and> dequeue \<lparr>buffer = [\<lparr>sequence = 2, data = 5::nat\<rparr>, \<lparr>sequence = 1, data = 0\<rparr>],
           buffer_mask = 1, enqueue_pos = 1, dequeue_pos = 1\<rparr> 7
      = Some (False, 7, \<lparr>buffer = [\<lparr>sequence = 2, data = 5\<rparr>, \<lparr>sequence = 1, data = 0\<rparr>],
           buffer_mask = 1, enqueue_pos = 1, dequeue_pos = 1\<rparr>)
   \<and> enqueue \<lparr>buffer = [\<lparr>sequence = 1, data = 5::nat\<rparr>, \<lparr>sequence = 2, data = 6\<rparr>],
           buffer_mask = 1, enqueue_pos = 2, dequeue_pos = 0\<rparr> 8
      = Some (False, \<lparr>buffer = [\<lparr>sequence = 1, data = 5\<rparr>, \<lparr>sequence = 2, data = 6\<rparr>],
           buffer_mask = 1, enqueue_pos = 2, dequeue_pos = 0\<rparr>)
   \<and> (\<exists>q3. run \<lparr>buffer = [\<lparr>sequence = 2, data = 5::nat\<rparr>, \<lparr>sequence = 1, data = 0\<rparr>],
           buffer_mask = 1, enqueue_pos = 1, dequeue_pos = 1\<rparr>
          (replicate 3 (Dequeue 7) @ [Enqueue 8, Dequeue 7])
        = Some (replicate 3 (DequeueRet False 7) @ [EnqueueRet True, DequeueRet True 8], q3))"
proof -
  have h: "new_MPMCQueue 576460752303423487 2 (0::nat) =
     Inr \<lparr>buffer = [\<lparr>sequence = 0, data = 0\<rparr>, \<lparr>sequence = 1, data = 0\<rparr>],
          buffer_mask = 1, enqueue_pos = 0, dequeue_pos = 0\<rparr>"
    by (simp add: new_MPMCQueue_2)
  have r: "run \<lparr>buffer = [\<lparr>sequence = 0, data = 0::nat\<rparr>, \<lparr>sequence = 1, data = 0\<rparr>],
          buffer_mask = 1, enqueue_pos = 0, dequeue_pos = 0\<rparr> [Enqueue 5, Dequeue 0]
      = Some ([EnqueueRet True, DequeueRet True 5],
          \<lparr>buffer = [\<lparr>sequence = 2, data = 5\<rparr>, \<lparr>sequence = 1, data = 0\<rparr>],
           buffer_mask = 1, enqueue_pos = 1, dequeue_pos = 1\<rparr>)"
    by (simp add: queue_eval)
  have d: "dequeue \<lparr>buffer = [\<lparr>sequence = 2, data = 5::nat\<rparr>, \<lparr>sequence = 1, data = 0\<rparr>],
           buffer_mask = 1, enqueue_pos = 1, dequeue_pos = 1\<rparr> 7
      = Some (False, 7, \<lparr>buffer = [\<lparr>sequence = 2, data = 5\<rparr>, \<lparr>sequence = 1, data = 0\<rparr>],
           buffer_mask = 1, enqueue_pos = 1, dequeue_pos = 1\<rparr>)"
    by (simp add: queue_eval)
  have e: "enqueue \<lparr>buffer = [\<lparr>sequence = 1, data = 5::nat\<rparr>, \<lparr>sequence = 2, data = 6\<rparr>],
           buffer_mask = 1, enqueue_pos = 2, dequeue_pos = 0\<rparr> 8
      = Some (False, \<lparr>buffer = [\<lparr>sequence = 1, data = 5\<rparr>, \<lparr>sequence = 2, data = 6\<rparr>],
           buffer_mask = 1, enqueue_pos = 2, dequeue_pos = 0\<rparr>)"
    by (simp add: queue_eval)
  from failed_call_no_effect [where
      q = "\<lparr>buffer = [\<lparr>sequence = 1, data = 5::nat\<rparr>, \<lparr>sequence = 2, data = 6\<rparr>],
           buffer_mask = 1, enqueue_pos = 2, dequeue_pos = 0\<rparr>" and v = 8
      and q' = "\<lparr>buffer = [\<lparr>sequence = 1, data = 5::nat\<rparr>, \<lparr>sequence = 2, data = 6\<rparr>],
           buffer_mask = 1, enqueue_pos = 2, dequeue_pos = 0\<rparr>"
      and ms = 576460752303423487 and n = 2 and dflt = 0
      and ?q0.0 = "\<lparr>buffer = [\<lparr>sequence = 0, data = 0\<rparr>, \<lparr>sequence = 1, data = 0\<rparr>],
          buffer_mask = 1, enqueue_pos = 0, dequeue_pos = 0\<rparr>"
      and cs = "[Enqueue 5, Dequeue 0]" and rs = "[EnqueueRet True, DequeueRet True 5]"
      and ?q1.0 = "\<lparr>buffer = [\<lparr>sequence = 2, data = 5\<rparr>, \<lparr>sequence = 1, data = 0\<rparr>],
           buffer_mask = 1, enqueue_pos = 1, dequeue_pos = 1\<rparr>" and d = 7 and ?d1.0 = 7
      and ?q2.0 = "\<lparr>buffer = [\<lparr>sequence = 2, data = 5\<rparr>, \<lparr>sequence = 1, data = 0\<rparr>],
           buffer_mask = 1, enqueue_pos = 1, dequeue_pos = 1\<rparr>" and m = 3]
  show ?thesis using h r d e by blast
qed




text \<open>
  Claim C6. A freshly constructed queue is empty: cell \<open>i\<close> has sequence number \<open>i\<close>,
  both counters are 0, and the first dequeue returns false and changes nothing.
\<close>

theorem fresh_queue_is_empty:
  assumes "new_MPMCQueue ms n dflt = Inr q"
  shows "length (buffer q) = unat n
       \<and> (\<forall>i < length (buffer q). sequence (buffer q ! i) = of_nat i)
       \<and> enqueue_pos q = 0 \<and> dequeue_pos q = 0
       \<and> dequeue q d = Some (False, d, q)"
proof -
  note f = new_MPMCQueue_Inr [OF assms]
  have "dequeue q d = Some (False, d, q)"
    using new_MPMCQueue_inv [OF assms] by (rule dequeue_empty)
  then show ?thesis using f by simp
qed

theorem fresh_queue_is_empty_witness:
  "new_MPMCQueue 576460752303423487 2 (0::nat) =
     Inr \<lparr>buffer = [\<lparr>sequence = 0, data = 0\<rparr>, \<lparr>sequence = 1, data = 0\<rparr>],
          buffer_mask = 1, enqueue_pos = 0, dequeue_pos = 0\<rparr>
   \<and> dequeue \<lparr>buffer = [\<lparr>sequence = 0, data = 0::nat\<rparr>, \<lparr>sequence = 1, data = 0\<rparr>],
          buffer_mask = 1, enqueue_pos = 0, dequeue_pos = 0\<rparr> 7
      = Some (False, 7, \<lparr>buffer = [\<lparr>sequence = 0, data = 0\<rparr>, \<lparr>sequence = 1, data = 0\<rparr>],
          buffer_mask = 1, enqueue_pos = 0, dequeue_pos = 0\<rparr>)"
proof -
  have h: "new_MPMCQueue 576460752303423487 2 (0::nat) =
     Inr \<lparr>buffer = [\<lparr>sequence = 0, data = 0\<rparr>, \<lparr>sequence = 1, data = 0\<rparr>],
          buffer_mask = 1, enqueue_pos = 0, dequeue_pos = 0\<rparr>"
    by (simp add: new_MPMCQueue_2)
  show ?thesis using h fresh_queue_is_empty [OF h, of 7] by blast
qed

text \<open>
  Claim C7. Run on one thread, every call returns: from a constructed queue any
  sequence of calls runs to its end, and in the state reached an enqueue returns and a
  dequeue returns. Neither loop spins, and no cell outside the ring is touched.
\<close>

theorem calls_terminate:
  assumes "new_MPMCQueue ms n dflt = Inr q0"
  shows "\<exists>rs q. run q0 cs = Some (rs, q)
           \<and> (\<exists>r. enqueue q v = Some r) \<and> (\<exists>r. dequeue q d = Some r)"
proof -
  have i0: "queue_inv q0" using assms by (rule new_MPMCQueue_inv)
  from run_sim [OF i0, of cs] obtain rs q where r: "run q0 cs = Some (rs, q)"
    and i: "queue_inv q"
    by blast
  have "\<exists>r. enqueue q v = Some r"
  proof (cases "count q < length (buffer q)")
    case True
    show ?thesis by (intro exI) (rule enqueue_not_full [OF i True])
  next
    case False
    with i have "count q = length (buffer q)" by (simp add: queue_inv_def)
    then show ?thesis by (intro exI) (rule enqueue_full [OF i])
  qed
  moreover have "\<exists>r. dequeue q d = Some r"
  proof (cases "0 < count q")
    case True
    show ?thesis by (intro exI) (rule dequeue_not_empty [OF i True])
  next
    case False
    then have "count q = 0" by simp
    then show ?thesis by (intro exI) (rule dequeue_empty [OF i])
  qed
  ultimately show ?thesis using r by blast
qed

theorem calls_terminate_witness:
  "new_MPMCQueue 576460752303423487 2 (0::nat) =
     Inr \<lparr>buffer = [\<lparr>sequence = 0, data = 0\<rparr>, \<lparr>sequence = 1, data = 0\<rparr>],
          buffer_mask = 1, enqueue_pos = 0, dequeue_pos = 0\<rparr>
   \<and> (\<exists>rs q. run \<lparr>buffer = [\<lparr>sequence = 0, data = 0::nat\<rparr>, \<lparr>sequence = 1, data = 0\<rparr>],
          buffer_mask = 1, enqueue_pos = 0, dequeue_pos = 0\<rparr> [Enqueue 5, Enqueue 6, Dequeue 0]
        = Some (rs, q) \<and> (\<exists>r. enqueue q 8 = Some r) \<and> (\<exists>r. dequeue q 9 = Some r))"
proof -
  have h: "new_MPMCQueue 576460752303423487 2 (0::nat) =
     Inr \<lparr>buffer = [\<lparr>sequence = 0, data = 0\<rparr>, \<lparr>sequence = 1, data = 0\<rparr>],
          buffer_mask = 1, enqueue_pos = 0, dequeue_pos = 0\<rparr>"
    by (simp add: new_MPMCQueue_2)
  show ?thesis
    using h calls_terminate [OF h, of "[Enqueue 5, Enqueue 6, Dequeue 0]" 8 9] by blast
qed

text \<open>
  Claim C9. A dequeue that returns false leaves the variable passed by reference as it
  was. The variable is written only by a dequeue that returns true, and such a call has
  advanced \<open>dequeue_pos\<close> by one and hands over the payload of the cell at the old
  position.
\<close>

theorem dequeue_failure_keeps_argument:
  assumes "dequeue q d = Some (ok, d', q')"
  shows "(\<not> ok \<longrightarrow> d' = d)
       \<and> (ok \<longrightarrow> d' = data (buffer q ! slot q (dequeue_pos q))
                \<and> dequeue_pos q' = dequeue_pos q + 1)"
  using dequeue_loop_result [of q d "dequeue_pos q" "(ok, d', q')"] assms
  by (auto simp: dequeue_def)

theorem dequeue_failure_keeps_argument_witness:
  "dequeue \<lparr>buffer = [\<lparr>sequence = 0, data = 0::nat\<rparr>, \<lparr>sequence = 1, data = 0\<rparr>],
          buffer_mask = 1, enqueue_pos = 0, dequeue_pos = 0\<rparr> 7
      = Some (False, 7, \<lparr>buffer = [\<lparr>sequence = 0, data = 0\<rparr>, \<lparr>sequence = 1, data = 0\<rparr>],
          buffer_mask = 1, enqueue_pos = 0, dequeue_pos = 0\<rparr>)
   \<and> dequeue \<lparr>buffer = [\<lparr>sequence = 1, data = 5::nat\<rparr>, \<lparr>sequence = 1, data = 0\<rparr>],
          buffer_mask = 1, enqueue_pos = 1, dequeue_pos = 0\<rparr> 7
      = Some (True, 5, \<lparr>buffer = [\<lparr>sequence = 2, data = 5\<rparr>, \<lparr>sequence = 1, data = 0\<rparr>],
          buffer_mask = 1, enqueue_pos = 1, dequeue_pos = 1\<rparr>)
   \<and> (5::nat) = data (buffer \<lparr>buffer = [\<lparr>sequence = 1, data = 5::nat\<rparr>, \<lparr>sequence = 1, data = 0\<rparr>],
          buffer_mask = 1, enqueue_pos = 1, dequeue_pos = 0\<rparr>
        ! slot \<lparr>buffer = [\<lparr>sequence = 1, data = 5::nat\<rparr>, \<lparr>sequence = 1, data = 0\<rparr>],
          buffer_mask = 1, enqueue_pos = 1, dequeue_pos = 0\<rparr> 0)"
proof -
  have d: "dequeue \<lparr>buffer = [\<lparr>sequence = 0, data = 0::nat\<rparr>, \<lparr>sequence = 1, data = 0\<rparr>],
          buffer_mask = 1, enqueue_pos = 0, dequeue_pos = 0\<rparr> 7
      = Some (False, 7, \<lparr>buffer = [\<lparr>sequence = 0, data = 0\<rparr>, \<lparr>sequence = 1, data = 0\<rparr>],
          buffer_mask = 1, enqueue_pos = 0, dequeue_pos = 0\<rparr>)"
    by (simp add: queue_eval)
  have e: "dequeue \<lparr>buffer = [\<lparr>sequence = 1, data = 5::nat\<rparr>, \<lparr>sequence = 1, data = 0\<rparr>],
          buffer_mask = 1, enqueue_pos = 1, dequeue_pos = 0\<rparr> 7
      = Some (True, 5, \<lparr>buffer = [\<lparr>sequence = 2, data = 5\<rparr>, \<lparr>sequence = 1, data = 0\<rparr>],
          buffer_mask = 1, enqueue_pos = 1, dequeue_pos = 1\<rparr>)"
    by (simp add: queue_eval)
  show ?thesis
    using d e dequeue_failure_keeps_argument [OF d] dequeue_failure_keeps_argument [OF e]
    by simp
qed

text \<open>
  Claim C10, as stated, fails where a counter wraps. After \<open>2 ^ 64 - 1\<close> pairs of an
  enqueue and a dequeue on a queue of capacity 2 both counters hold \<open>2 ^ 64 - 1\<close>; one
  more enqueue takes \<open>enqueue_pos\<close> to 0, below its previous value and below
  \<open>dequeue_pos\<close>.
\<close>

theorem counters_ordered_counterexample:
  "new_MPMCQueue 576460752303423487 2 (0::nat) =
     Inr \<lparr>buffer = [\<lparr>sequence = 0, data = 0\<rparr>, \<lparr>sequence = 1, data = 0\<rparr>],
          buffer_mask = 1, enqueue_pos = 0, dequeue_pos = 0\<rparr>
   \<and> map_option (enqueue_pos \<circ> snd)
        (run \<lparr>buffer = [\<lparr>sequence = 0, data = 0::nat\<rparr>, \<lparr>sequence = 1, data = 0\<rparr>],
               buffer_mask = 1, enqueue_pos = 0, dequeue_pos = 0\<rparr>
           (concat (replicate (2 ^ 64 - 1) [Enqueue 0, Dequeue 0])))
       = Some 18446744073709551615
   \<and> map_option (enqueue_pos \<circ> snd)
        (run \<lparr>buffer = [\<lparr>sequence = 0, data = 0::nat\<rparr>, \<lparr>sequence = 1, data = 0\<rparr>],
               buffer_mask = 1, enqueue_pos = 0, dequeue_pos = 0\<rparr>
           (concat (replicate (2 ^ 64 - 1) [Enqueue 0, Dequeue 0]) @ [Enqueue 0]))
       = Some 0
   \<and> map_option (dequeue_pos \<circ> snd)
        (run \<lparr>buffer = [\<lparr>sequence = 0, data = 0::nat\<rparr>, \<lparr>sequence = 1, data = 0\<rparr>],
               buffer_mask = 1, enqueue_pos = 0, dequeue_pos = 0\<rparr>
           (concat (replicate (2 ^ 64 - 1) [Enqueue 0, Dequeue 0]) @ [Enqueue 0]))
       = Some 18446744073709551615
   \<and> \<not> (18446744073709551615 :: size_t) \<le> 0"
proof -
  let ?q0 = "\<lparr>buffer = [\<lparr>sequence = 0, data = 0::nat\<rparr>, \<lparr>sequence = 1, data = 0\<rparr>],
               buffer_mask = 1, enqueue_pos = 0, dequeue_pos = 0\<rparr>"
  have h: "new_MPMCQueue 576460752303423487 2 (0::nat) = Inr ?q0" by (rule new_MPMCQueue_2) simp
  from run_pairs [OF h, of "2 ^ 64 - 1" 0 0] obtain q where
    "run ?q0 (concat (replicate (2 ^ 64 - 1) [Enqueue 0, Dequeue 0]))
       = Some (concat (replicate (2 ^ 64 - 1) [EnqueueRet True, DequeueRet True 0]), q)"
    "enqueue_pos q = of_nat (2 ^ 64 - 1)"
    by blast
  then have a: "map_option (enqueue_pos \<circ> snd)
        (run ?q0 (concat (replicate (2 ^ 64 - 1) [Enqueue 0, Dequeue 0])))
       = Some 18446744073709551615"
    by (simp only: of_nat_max_word option.map comp_apply snd_conv)
  from run_pairs_then_enqueue [OF h, of "2 ^ 64 - 1" 0 0 0] obtain q' where
    "run ?q0 (concat (replicate (2 ^ 64 - 1) [Enqueue 0, Dequeue 0]) @ [Enqueue 0])
       = Some (concat (replicate (2 ^ 64 - 1) [EnqueueRet True, DequeueRet True 0])
                @ [EnqueueRet True], q')"
    "enqueue_pos q' = of_nat (2 ^ 64 - 1) + 1" "dequeue_pos q' = of_nat (2 ^ 64 - 1)"
    by blast
  then have b: "map_option (enqueue_pos \<circ> snd)
        (run ?q0 (concat (replicate (2 ^ 64 - 1) [Enqueue 0, Dequeue 0]) @ [Enqueue 0]))
       = Some (18446744073709551615 + 1)"
    and c: "map_option (dequeue_pos \<circ> snd)
        (run ?q0 (concat (replicate (2 ^ 64 - 1) [Enqueue 0, Dequeue 0]) @ [Enqueue 0]))
       = Some 18446744073709551615"
    by (simp_all only: of_nat_max_word option.map comp_apply snd_conv)
  have d: "(18446744073709551615 :: size_t) + 1 = 0" by simp
  have e: "\<not> (18446744073709551615 :: size_t) \<le> 0" by simp
  show ?thesis using h a b c e unfolding d by (intro conjI)
qed

text \<open>
  Claim C10, amended. In every state that a run reaches from a fresh queue of capacity
  \<open>n\<close>, \<open>enqueue_pos\<close> and \<open>dequeue_pos\<close> are the numbers of successful enqueues and of
  successful dequeues modulo \<open>2 ^ 64\<close>; the dequeues never outnumber the enqueues and
  lag behind by at most \<open>n\<close>, so the distance \<open>enqueue_pos - dequeue_pos\<close> modulo
  \<open>2 ^ 64\<close> is the resident count, between 0 and \<open>n\<close>. A call leaves each counter as it
  was or adds one to it. While fewer than \<open>2 ^ 64\<close> enqueues have succeeded, the counters
  themselves satisfy \<open>dequeue_pos \<le> enqueue_pos \<le> dequeue_pos + n\<close> and no call
  decreases either of them.
\<close>

theorem counters_window:
  assumes "new_MPMCQueue ms n dflt = Inr q0" and "run q0 cs = Some (rs, q)"
  shows "unat (enqueue_pos q - dequeue_pos q) \<le> unat n
       \<and> unat (enqueue_pos q - dequeue_pos q) = succ_enq rs - succ_deq rs
       \<and> enqueue_pos q = of_nat (succ_enq rs) \<and> dequeue_pos q = of_nat (succ_deq rs)
       \<and> succ_deq rs \<le> succ_enq rs \<and> succ_enq rs \<le> succ_deq rs + unat n
       \<and> (succ_enq rs < 2 ^ 64 \<longrightarrow>
            dequeue_pos q \<le> enqueue_pos q
            \<and> unat (enqueue_pos q) \<le> unat (dequeue_pos q) + unat n)
       \<and> (call_step q c = Some (r, q') \<longrightarrow>
            (enqueue_pos q' = enqueue_pos q \<or> enqueue_pos q' = enqueue_pos q + 1)
            \<and> (dequeue_pos q' = dequeue_pos q \<or> dequeue_pos q' = dequeue_pos q + 1)
            \<and> (succ_enq (rs @ [r]) < 2 ^ 64 \<longrightarrow>
                 enqueue_pos q \<le> enqueue_pos q' \<and> dequeue_pos q \<le> dequeue_pos q'))"
proof -
  have i0: "queue_inv q0" and c0: "count q0 = 0"
    using assms(1) by (rule new_MPMCQueue_inv)+
  note f = new_MPMCQueue_Inr [OF assms(1)]
  from run_counters [OF i0 assms(2)] have inv: "queue_inv q"
    and len: "length (buffer q) = unat n"
    and e: "enqueue_pos q = of_nat (succ_enq rs)"
    and d: "dequeue_pos q = of_nat (succ_deq rs)"
    and cnt: "count q + succ_deq rs = succ_enq rs"
    by (simp_all add: f c0)
  from inv len have le: "count q \<le> unat n" by (simp add: queue_inv_def)
  have c: "unat (enqueue_pos q - dequeue_pos q) = count q" by (simp add: count_def)
  have order: "succ_deq rs \<le> succ_enq rs" "succ_enq rs \<le> succ_deq rs + unat n"
    using cnt le by simp_all
  have nowrap: "dequeue_pos q \<le> enqueue_pos q
            \<and> unat (enqueue_pos q) \<le> unat (dequeue_pos q) + unat n"
    if "succ_enq rs < 2 ^ 64"
  proof -
    have "unat (enqueue_pos q) = succ_enq rs" unfolding e using that by (rule unat_of_nat_64)
    moreover have "unat (dequeue_pos q) = succ_deq rs"
      unfolding d using that order by (intro unat_of_nat_64) simp
    ultimately show ?thesis using order by (simp add: word_le_nat_alt)
  qed
  have step: "(enqueue_pos q' = enqueue_pos q \<or> enqueue_pos q' = enqueue_pos q + 1)
            \<and> (dequeue_pos q' = dequeue_pos q \<or> dequeue_pos q' = dequeue_pos q + 1)
            \<and> (succ_enq (rs @ [r]) < 2 ^ 64 \<longrightarrow>
                 enqueue_pos q \<le> enqueue_pos q' \<and> dequeue_pos q \<le> dequeue_pos q')"
    if s: "call_step q c = Some (r, q')"
  proof -
    have r1: "run q [c] = Some ([r], q')" using s by simp
    from run_counters [OF inv r1] have inv': "queue_inv q'"
      and len': "length (buffer q') = unat n"
      and e': "enqueue_pos q' = enqueue_pos q + of_nat (succ_enq [r])"
      and d': "dequeue_pos q' = dequeue_pos q + of_nat (succ_deq [r])"
      and cnt': "count q' + succ_deq [r] = count q + succ_enq [r]"
      by (simp_all add: len)
    have one: "succ_enq [r] = 0 \<or> succ_enq [r] = 1" "succ_deq [r] = 0 \<or> succ_deq [r] = 1"
      using succ_single_le [of r] by auto
    have A: "enqueue_pos q' = enqueue_pos q \<or> enqueue_pos q' = enqueue_pos q + 1"
      using one(1) e' by auto
    have B: "dequeue_pos q' = dequeue_pos q \<or> dequeue_pos q' = dequeue_pos q + 1"
      using one(2) d' by auto
    have C: "enqueue_pos q \<le> enqueue_pos q' \<and> dequeue_pos q \<le> dequeue_pos q'"
      if w: "succ_enq (rs @ [r]) < 2 ^ 64"
    proof -
      have e2: "enqueue_pos q' = of_nat (succ_enq (rs @ [r]))"
        using e e' by (simp add: succ_enq_append)
      have d2: "dequeue_pos q' = of_nat (succ_deq (rs @ [r]))"
        using d d' by (simp add: succ_deq_append)
      from inv' len' have "count q' \<le> unat n" by (simp add: queue_inv_def)
      have dl: "succ_deq (rs @ [r]) \<le> succ_enq (rs @ [r])"
        using cnt cnt' by (simp add: succ_enq_append succ_deq_append)
      have w0: "succ_enq rs < 2 ^ 64" using w by (simp add: succ_enq_append)
      have "unat (enqueue_pos q) = succ_enq rs" unfolding e using w0 by (rule unat_of_nat_64)
      moreover have "unat (dequeue_pos q) = succ_deq rs"
        unfolding d using w0 order by (intro unat_of_nat_64) simp
      moreover have "unat (enqueue_pos q') = succ_enq (rs @ [r])"
        unfolding e2 using w by (rule unat_of_nat_64)
      moreover have "unat (dequeue_pos q') = succ_deq (rs @ [r])"
        unfolding d2 using w dl by (intro unat_of_nat_64) simp
      ultimately show ?thesis
        by (simp add: word_le_nat_alt succ_enq_append succ_deq_append)
    qed
    show ?thesis using A B C by blast
  qed
  show ?thesis
    using c le cnt e d order nowrap step by (intro conjI impI) simp_all
qed

theorem counters_window_witness:
  "new_MPMCQueue 576460752303423487 2 (0::nat) =
     Inr \<lparr>buffer = [\<lparr>sequence = 0, data = 0\<rparr>, \<lparr>sequence = 1, data = 0\<rparr>],
          buffer_mask = 1, enqueue_pos = 0, dequeue_pos = 0\<rparr>
   \<and> run \<lparr>buffer = [\<lparr>sequence = 0, data = 0::nat\<rparr>, \<lparr>sequence = 1, data = 0\<rparr>],
          buffer_mask = 1, enqueue_pos = 0, dequeue_pos = 0\<rparr>
        [Enqueue 5, Enqueue 6, Enqueue 7]
      = Some ([EnqueueRet True, EnqueueRet True, EnqueueRet False],
          \<lparr>buffer = [\<lparr>sequence = 1, data = 5\<rparr>, \<lparr>sequence = 2, data = 6\<rparr>],
           buffer_mask = 1, enqueue_pos = 2, dequeue_pos = 0\<rparr>)
   \<and> call_step \<lparr>buffer = [\<lparr>sequence = 1, data = 5::nat\<rparr>, \<lparr>sequence = 2, data = 6\<rparr>],
           buffer_mask = 1, enqueue_pos = 2, dequeue_pos = 0\<rparr> (Dequeue 0)
      = Some (DequeueRet True 5,
          \<lparr>buffer = [\<lparr>sequence = 2, data = 5\<rparr>, \<lparr>sequence = 2, data = 6\<rparr>],
           buffer_mask = 1, enqueue_pos = 2, dequeue_pos = 1\<rparr>)
   \<and> succ_enq [EnqueueRet True, EnqueueRet True, EnqueueRet False :: nat ret] < 2 ^ 64
   \<and> succ_enq ([EnqueueRet True, EnqueueRet True, EnqueueRet False] @ [DequeueRet True (5::nat)])
        < 2 ^ 64
   \<and> (0 :: size_t) \<le> 2 \<and> unat (2 :: size_t) \<le> unat (0 :: size_t) + unat (2 :: size_t)
   \<and> (2 :: size_t) \<le> 2 \<and> (0 :: size_t) \<le> 1"
proof -
  have h: "new_MPMCQueue 576460752303423487 2 (0::nat) =
     Inr \<lparr>buffer = [\<lparr>sequence = 0, data = 0\<rparr>, \<lparr>sequence = 1, data = 0\<rparr>],
          buffer_mask = 1, enqueue_pos = 0, dequeue_pos = 0\<rparr>"
    by (simp add: new_MPMCQueue_2)
  have r: "run \<lparr>buffer = [\<lparr>sequence = 0, data = 0::nat\<rparr>, \<lparr>sequence = 1, data = 0\<rparr>],
          buffer_mask = 1, enqueue_pos = 0, dequeue_pos = 0\<rparr>
        [Enqueue 5, Enqueue 6, Enqueue 7]
      = Some ([EnqueueRet True, EnqueueRet True, EnqueueRet False],
          \<lparr>buffer = [\<lparr>sequence = 1, data = 5\<rparr>, \<lparr>sequence = 2, data = 6\<rparr>],
           buffer_mask = 1, enqueue_pos = 2, dequeue_pos = 0\<rparr>)"
    by (simp add: queue_eval)
  have s: "call_step \<lparr>buffer = [\<lparr>sequence = 1, data = 5::nat\<rparr>, \<lparr>sequence = 2, data = 6\<rparr>],
           buffer_mask = 1, enqueue_pos = 2, dequeue_pos = 0\<rparr> (Dequeue 0)
      = Some (DequeueRet True 5,
          \<lparr>buffer = [\<lparr>sequence = 2, data = 5\<rparr>, \<lparr>sequence = 2, data = 6\<rparr>],
           buffer_mask = 1, enqueue_pos = 2, dequeue_pos = 1\<rparr>)"
    by (simp add: queue_eval)
  have w: "succ_enq [EnqueueRet True, EnqueueRet True, EnqueueRet False :: nat ret] < 2 ^ 64"
    "succ_enq ([EnqueueRet True, EnqueueRet True, EnqueueRet False] @ [DequeueRet True (5::nat)])
        < 2 ^ 64"
    by simp_all
  from counters_window [OF h r, of "Dequeue 0" "DequeueRet True 5"
      "\<lparr>buffer = [\<lparr>sequence = 2, data = 5\<rparr>, \<lparr>sequence = 2, data = 6\<rparr>],
           buffer_mask = 1, enqueue_pos = 2, dequeue_pos = 1\<rparr>"]
  show ?thesis using h r s w by simp
qed

end
